theory Spec2Isabelle
  imports Main "HOL-Library.Char_ord" "HOL-Library.List_Lexorder" "HOL-Library.Sublist"
    "HOL-Library.Multiset"
begin

section \<open>The command-line front end of uncompyle6 (bin/uncompile.py)\<close>

text \<open>
  The development embeds the dispatch layer of \<^verbatim>\<open>main_bin\<close>: the expansion of
  directory arguments, the reduction of the input paths to a common base, the serial call of
  \<^verbatim>\<open>main\<close>, and the multi-process protocol over the two queues. Paths are POSIX paths
  (\<^verbatim>\<open>os.sep\<close> is \<^verbatim>\<open>/\<close>, \<^verbatim>\<open>os.path\<close> is \<^verbatim>\<open>posixpath\<close>); Python strings are
  \<^typ>\<open>string\<close>, compared by code point as \<^verbatim>\<open>min\<close> and \<^verbatim>\<open>max\<close> do.
\<close>

subsection \<open>Exceptions\<close>

datatype exn =
    IndexError
  | ImportError
  | KeyboardInterrupt
  | VerifyCmpError
  | Empty
  | OSError
  | OtherError string

subsection \<open>The functions of \<^verbatim>\<open>os.path\<close> that the front end calls\<close>

definition sep :: char where
  "sep = CHR ''/''"

text \<open>\<^verbatim>\<open>s.startswith(sep)\<close> and \<^verbatim>\<open>s.endswith(sep)\<close> for the one-character separator.\<close>

definition startswith_sep :: "string \<Rightarrow> bool" where
  "startswith_sep s = (case s of [] \<Rightarrow> False | c # _ \<Rightarrow> c = sep)"

definition endswith_sep :: "string \<Rightarrow> bool" where
  "endswith_sep s = (s \<noteq> [] \<and> last s = sep)"

text \<open>\<^verbatim>\<open>s.endswith(suf)\<close> for an arbitrary suffix.\<close>

definition endswith :: "string \<Rightarrow> string \<Rightarrow> bool" where
  "endswith s suf = (length suf \<le> length s \<and> drop (length s - length suf) s = suf)"

text \<open>\<^verbatim>\<open>min(m)\<close> and \<^verbatim>\<open>max(m)\<close> of a non-empty list: the first smallest (largest) element.\<close>

fun py_min :: "string \<Rightarrow> string list \<Rightarrow> string" where
  "py_min a [] = a"
| "py_min a (x # xs) = py_min (if x < a then x else a) xs"

fun py_max :: "string \<Rightarrow> string list \<Rightarrow> string" where
  "py_max a [] = a"
| "py_max a (x # xs) = py_max (if a < x then x else a) xs"

text \<open>
  The loop of \<^verbatim>\<open>commonprefix\<close>:
  \<^verbatim>\<open>for i, c in enumerate(s1): if c != s2[i]: return s1[:i]\<close>, then \<^verbatim>\<open>return s1\<close>.
  The characters already passed are \<^verbatim>\<open>s1[:i]\<close>; reading \<^verbatim>\<open>s2[i]\<close> beyond the end of
  \<^verbatim>\<open>s2\<close> raises \<^verbatim>\<open>IndexError\<close>.
\<close>

fun scan_prefix :: "string \<Rightarrow> string \<Rightarrow> exn + string" where
  "scan_prefix [] s2 = Inr []"
| "scan_prefix (c # s1) [] = Inl IndexError"
| "scan_prefix (c # s1) (d # s2) =
     (if c \<noteq> d then Inr []
      else (case scan_prefix s1 s2 of Inl e \<Rightarrow> Inl e | Inr p \<Rightarrow> Inr (c # p)))"

definition commonprefix :: "string list \<Rightarrow> exn + string" where
  "commonprefix m =
     (case m of
        [] \<Rightarrow> Inr []
      | a # rest \<Rightarrow> scan_prefix (py_min a rest) (py_max a rest))"

text \<open>\<^verbatim>\<open>p.rfind(sep)\<close>: the highest index of the separator, or \<open>-1\<close>.\<close>

fun rfind_sep :: "string \<Rightarrow> int" where
  "rfind_sep [] = -1"
| "rfind_sep (c # cs) =
     (let r = rfind_sep cs in if 0 \<le> r then r + 1 else if c = sep then 0 else -1)"

text \<open>\<^verbatim>\<open>head.rstrip(sep)\<close>.\<close>

definition rstrip_sep :: "string \<Rightarrow> string" where
  "rstrip_sep s = rev (dropWhile (\<lambda>c. c = sep) (rev s))"

text \<open>
  \<^verbatim>\<open>posixpath.dirname\<close>:
  \<^verbatim>\<open>i = p.rfind(sep) + 1; head = p[:i]\<close>;
  \<^verbatim>\<open>if head and head != sep*len(head): head = head.rstrip(sep)\<close>.
\<close>

definition dirname :: "string \<Rightarrow> string" where
  "dirname p =
     (let i = rfind_sep p + 1;
          head = take (nat i) p
      in if head \<noteq> [] \<and> head \<noteq> replicate (length head) sep then rstrip_sep head else head)"

text \<open>
  \<^verbatim>\<open>posixpath.join(a, b)\<close> with one further component: an absolute \<^verbatim>\<open>b\<close> replaces the
  path, an empty path or one that ends with the separator is extended directly, any other
  gets a separator first.
\<close>

definition join :: "string \<Rightarrow> string \<Rightarrow> string" where
  "join a b =
     (if startswith_sep b then b
      else if a = [] \<or> endswith_sep a then a @ b
      else a @ [sep] @ b)"

subsection \<open>Reduction of the input paths (lines 179 to 184)\<close>

text \<open>\<^verbatim>\<open>src_base[-1:]\<close>: the last character as a string, empty for the empty string.\<close>

definition last_slice :: "string \<Rightarrow> string" where
  "last_slice s = (if s = [] then [] else [last s])"

text \<open>
  \<^verbatim>\<open>src_base = os.path.commonprefix(pyc_paths)\<close>;
  \<^verbatim>\<open>if src_base[-1:] != os.sep: src_base = os.path.dirname(src_base)\<close>.
\<close>

definition base_of :: "string \<Rightarrow> string" where
  "base_of cp = (if last_slice cp \<noteq> [sep] then dirname cp else cp)"

text \<open>
  \<^verbatim>\<open>if src_base: sb_len = len(os.path.join(src_base, "")); pyc_paths = [f[sb_len:] for f in pyc_paths]\<close>.
  The result is the pair of \<^verbatim>\<open>src_base\<close> and the new \<^verbatim>\<open>pyc_paths\<close>.
\<close>

definition strip_base :: "string \<Rightarrow> string list \<Rightarrow> string list" where
  "strip_base src_base pyc_paths =
     (if src_base \<noteq> []
      then (let sb_len = length (join src_base []) in map (drop sb_len) pyc_paths)
      else pyc_paths)"

definition path_reducer :: "string list \<Rightarrow> exn + string \<times> string list" where
  "path_reducer pyc_paths =
     (case commonprefix pyc_paths of
        Inl e \<Rightarrow> Inl e
      | Inr cp \<Rightarrow> (let src_base = base_of cp in Inr (src_base, strip_base src_base pyc_paths)))"

subsection \<open>Expansion of directory arguments (lines 166 to 174)\<close>

text \<open>
  The file system is read through \<^verbatim>\<open>os.path.isdir\<close> and \<^verbatim>\<open>os.walk\<close>, which are
  parameters here: \<open>walk f\<close> is the sequence of triples \<^verbatim>\<open>(root, dirs, files)\<close> that
  \<^verbatim>\<open>os.walk(f)\<close> yields. The three nested loops append in order.
\<close>

definition is_compiled :: "string \<Rightarrow> bool" where
  "is_compiled df = (endswith df ''.pyc'' \<or> endswith df ''.pyo'')"

definition walk_dir :: "(string \<Rightarrow> (string \<times> string list \<times> string list) list) \<Rightarrow> string \<Rightarrow> string list" where
  "walk_dir walk f =
     concat (map (\<lambda>(root, _, dir_files). map (join root) (filter is_compiled dir_files)) (walk f))"

definition expand_dirs ::
  "(string \<Rightarrow> bool) \<Rightarrow> (string \<Rightarrow> (string \<times> string list \<times> string list) list) \<Rightarrow> string list \<Rightarrow> string list" where
  "expand_dirs isdir walk pyc_paths =
     concat (map (\<lambda>f. if isdir f then walk_dir walk f else []) pyc_paths)"

subsection \<open>Counters\<close>

text \<open>
  The tuple \<^verbatim>\<open>(tot_files, okay_files, failed_files, verify_failed_files)\<close> that
  \<^verbatim>\<open>main\<close> returns and that the workers and the dispatcher add up componentwise.
\<close>

datatype counters =
  Counters (tot_files: int) (okay_files: int) (failed_files: int) (verify_failed_files: int)

instantiation counters :: comm_monoid_add
begin

definition zero_counters :: counters where
  "zero_counters = Counters 0 0 0 0"

definition plus_counters :: "counters \<Rightarrow> counters \<Rightarrow> counters" where
  "plus_counters a b =
     Counters (tot_files a + tot_files b) (okay_files a + okay_files b)
       (failed_files a + failed_files b) (verify_failed_files a + verify_failed_files b)"

instance
  by standard (simp_all add: zero_counters_def plus_counters_def)

end

subsection \<open>The call of \<^verbatim>\<open>uncompyle6.main.main\<close>\<close>

text \<open>
  \<^verbatim>\<open>main(in_base, out_base, compiled_files, source_files, outfile, **kw)\<close> is imported
  from \<^verbatim>\<open>uncompyle6.main\<close>; the front end only calls it. A call is the record of its
  arguments, and \<^verbatim>\<open>main\<close> itself is a parameter \<open>mainf\<close> of the model that either
  returns the four counters or raises.
\<close>

record 'o main_args =
  in_base :: string
  out_base :: "string option"
  files :: "string list"
  sources :: "string list"
  out_file :: "string option"
  opts :: 'o

text \<open>
  Modelled from the spec: the body of \<^verbatim>\<open>uncompyle6.main.main\<close> is missing from the
  sources at hand. The specification describes it as iterating over the input paths, invoking
  the per-file transformation synchronously and accumulating the counters in one variable,
  an error of the transformation aborting the iteration at once.
\<close>

fun main_loop ::
  "('o main_args \<Rightarrow> string \<Rightarrow> exn + counters) \<Rightarrow> 'o main_args \<Rightarrow> string list \<Rightarrow> counters \<Rightarrow> exn + counters" where
  "main_loop invoke args [] acc = Inr acc"
| "main_loop invoke args (f # fs) acc =
     (case invoke args f of
        Inl e \<Rightarrow> Inl e
      | Inr c \<Rightarrow> main_loop invoke args fs (acc + c))"

definition main :: "('o main_args \<Rightarrow> string \<Rightarrow> exn + counters) \<Rightarrow> 'o main_args \<Rightarrow> exn + counters" where
  "main invoke args = main_loop invoke args (files args) 0"

subsection \<open>Output and termination of a run\<close>

datatype line =
    Doc
  | Version
  | ExcText exn
  | Status counters
  | Decompiled counters
  | Time

datatype ending = Returned | SysExit int | Raised exn | Hangs

text \<open>
  What reaches standard error: a string passed to \<^verbatim>\<open>sys.stderr.write\<close>, or the traceback
  that \<^verbatim>\<open>multiprocessing\<close> prints for a worker process (given by its index) that ends
  by an exception nothing catches.
\<close>

datatype err = Written string | Traceback nat exn

record 'o run =
  stdout :: "line list"
  stderr :: "err list"
  ending :: ending
  main_calls :: "'o main_args list"
  aggregate :: "counters option"

text \<open>
  \<^verbatim>\<open>usage()\<close> prints the documentation string on standard output and leaves with
  \<^verbatim>\<open>sys.exit(1)\<close>; \<open>err\<close> is what has been written to standard error before the call.
\<close>

definition usage :: "err list \<Rightarrow> 'o run" where
  "usage err =
     \<lparr>stdout = [Doc], stderr = err, ending = SysExit 1, main_calls = [], aggregate = None\<rparr>"

subsection \<open>Output destination (lines 190 to 197)\<close>

text \<open>The pair \<^verbatim>\<open>(out_base, outfile)\<close> after the three branches; \<^verbatim>\<open>out_base\<close> starts as \<^verbatim>\<open>None\<close>.\<close>

definition resolve_out :: "(string \<Rightarrow> bool) \<Rightarrow> string option \<Rightarrow> nat \<Rightarrow> string option \<times> string option" where
  "resolve_out isdir outfile n =
     (if outfile = Some ''-'' then (None, None)
      else if outfile \<noteq> None \<and> outfile \<noteq> Some [] \<and> isdir (the outfile) then (outfile, None)
      else if outfile \<noteq> None \<and> outfile \<noteq> Some [] \<and> 1 < n then (outfile, None)
      else (None, outfile))"

subsection \<open>Serial mode (lines 208 to 235)\<close>

text \<open>
  \<open>ts\<close> is the time stamp line when \<^verbatim>\<open>timestamp\<close> is set and empty otherwise; it is printed
  before the mode is chosen and again at the end of \<^verbatim>\<open>main_bin\<close>, which only a run that
  neither exits nor raises reaches.
\<close>

definition serial_mode ::
  "('o main_args \<Rightarrow> exn + counters) \<Rightarrow> line list \<Rightarrow> 'o main_args \<Rightarrow> 'o run" where
  "serial_mode mainf ts args =
     (case mainf args of
        Inr result \<Rightarrow>
          \<lparr>stdout = ts @ (if 1 < length (files args) then [Status result] else []) @ ts,
           stderr = [], ending = Returned, main_calls = [args], aggregate = Some result\<rparr>
      | Inl e \<Rightarrow>
          if e = ImportError then
            \<lparr>stdout = ts @ [ExcText e], stderr = [], ending = SysExit 2,
             main_calls = [args], aggregate = None\<rparr>
          else if e = KeyboardInterrupt then
            \<lparr>stdout = ts @ ts, stderr = [], ending = Returned,
             main_calls = [args], aggregate = None\<rparr>
          else if e = VerifyCmpError then
            \<lparr>stdout = ts, stderr = [], ending = Raised VerifyCmpError,
             main_calls = [args], aggregate = None\<rparr>
          else
            \<lparr>stdout = ts, stderr = [], ending = Raised e,
             main_calls = [args], aggregate = None\<rparr>)"

subsection \<open>The queues of \<^verbatim>\<open>multiprocessing\<close>\<close>

text \<open>
  \<^verbatim>\<open>Queue(maxsize)\<close> is a bounded first-in first-out queue; a \<^verbatim>\<open>maxsize\<close> that is not
  positive means no bound. \<open>put\<close> is \<open>None\<close> where the caller would block on a full queue,
  \<open>get\<close> is \<open>None\<close> on an empty queue, where the blocking \<^verbatim>\<open>get()\<close> waits and the
  non-blocking \<^verbatim>\<open>get(False)\<close> raises \<^verbatim>\<open>Empty\<close>.
\<close>

record 'a queue =
  maxsize :: int
  items :: "'a list"

definition Queue :: "int \<Rightarrow> 'a queue" where
  "Queue n = \<lparr>maxsize = n, items = []\<rparr>"

definition full :: "'a queue \<Rightarrow> bool" where
  "full q = (0 < maxsize q \<and> maxsize q \<le> int (length (items q)))"

definition put :: "'a queue \<Rightarrow> 'a \<Rightarrow> 'a queue option" where
  "put q x = (if full q then None else Some (q\<lparr>items := items q @ [x]\<rparr>))"

definition get :: "'a queue \<Rightarrow> ('a \<times> 'a queue) option" where
  "get q = (case items q of [] \<Rightarrow> None | x # xs \<Rightarrow> Some (x, q\<lparr>items := xs\<rparr>))"

fun put_all :: "'a queue \<Rightarrow> 'a list \<Rightarrow> 'a queue option" where
  "put_all q [] = Some q"
| "put_all q (x # xs) = (case put q x of None \<Rightarrow> None | Some q' \<Rightarrow> put_all q' xs)"

text \<open>
  Lines 244 to 248: \<^verbatim>\<open>fqueue = Queue(len(pyc_paths) + numproc)\<close>, one \<^verbatim>\<open>put\<close> for every
  path, then one \<^verbatim>\<open>put(None)\<close> for every \<^verbatim>\<open>i\<close> in \<^verbatim>\<open>range(numproc)\<close>. The result is
  \<open>None\<close> when some \<^verbatim>\<open>put\<close> blocks.
\<close>

definition fill_fqueue :: "string list \<Rightarrow> int \<Rightarrow> string option queue option" where
  "fill_fqueue pyc_paths numproc =
     (case put_all (Queue (int (length pyc_paths) + numproc)) (map Some pyc_paths) of
        None \<Rightarrow> None
      | Some q \<Rightarrow> put_all q (replicate (nat numproc) None))"

subsection \<open>The worker processes (lines 254 to 274)\<close>

text \<open>
  A worker is at the head of its loop with its local counters (\<open>Running\<close>), waits in
  \<^verbatim>\<open>rqueue.put\<close> on a full queue (\<open>Blocked\<close>), has put its counters and returned
  (\<open>Exited\<close>), or has ended without reaching \<^verbatim>\<open>rqueue.put\<close> (\<open>Died\<close>): through an
  exception that \<^verbatim>\<open>process_func\<close> does not catch, or killed from outside. For a worker
  that ends by an exception, \<^verbatim>\<open>multiprocessing\<close> prints the traceback on standard error,
  which the processes share; \<open>tracebacks\<close> collects these in the order they are written.
\<close>

datatype worker = Running counters | Blocked counters | Exited counters | Died

record 'o pstate =
  fqueue :: "string option queue"
  rqueue :: "counters queue"
  procs :: "worker list"
  calls :: "'o main_args list"
  tracebacks :: "err list"

text \<open>\<^verbatim>\<open>rqueue.put((tot_files, okay_files, failed_files, verify_failed_files))\<close>, then the return.\<close>

definition publish :: "nat \<Rightarrow> counters \<Rightarrow> 'o pstate \<Rightarrow> 'o pstate" where
  "publish w c s =
     (case put (rqueue s) c of
        None \<Rightarrow> s\<lparr>procs := (procs s)[w := Blocked c]\<rparr>
      | Some rq \<Rightarrow> s\<lparr>rqueue := rq, procs := (procs s)[w := Exited c]\<rparr>)"

text \<open>
  One turn of \<^verbatim>\<open>while 1\<close> in worker \<open>w\<close>: \<^verbatim>\<open>fqueue.get()\<close> waits on an empty queue (the
  state is unchanged), \<^verbatim>\<open>None\<close> leaves the loop, and a path is passed to
  \<^verbatim>\<open>main(src_base, out_base, [f], [], outfile, **options)\<close>, whose counters are added.
  \<^verbatim>\<open>Empty\<close> and \<^verbatim>\<open>KeyboardInterrupt\<close> are caught and lead to the \<^verbatim>\<open>put\<close> as well; any
  other exception leaves \<^verbatim>\<open>process_func\<close>.
\<close>

definition process_func_iter ::
  "('o main_args \<Rightarrow> exn + counters) \<Rightarrow> 'o main_args \<Rightarrow> nat \<Rightarrow> counters \<Rightarrow> 'o pstate \<Rightarrow> 'o pstate" where
  "process_func_iter mainf args w c s =
     (case get (fqueue s) of
        None \<Rightarrow> s
      | Some (None, fq) \<Rightarrow> publish w c (s\<lparr>fqueue := fq\<rparr>)
      | Some (Some f, fq) \<Rightarrow>
          (let a = args\<lparr>files := [f], sources := []\<rparr>;
               s' = s\<lparr>fqueue := fq, calls := calls s @ [a]\<rparr>
           in case mainf a of
                Inr r \<Rightarrow> s'\<lparr>procs := (procs s')[w := Running (c + r)]\<rparr>
              | Inl e \<Rightarrow>
                  if e = Empty \<or> e = KeyboardInterrupt then publish w c s'
                  else s'\<lparr>procs := (procs s')[w := Died],
                         tracebacks := tracebacks s' @ [Traceback w e]\<rparr>))"

text \<open>
  The processes run interleaved, and the only state they share is the two queues, whose
  operations are atomic. An event lets one worker take its next turn (\<open>Run\<close>: one
  \<^verbatim>\<open>fqueue.get()\<close> with what follows it up to the next \<^verbatim>\<open>get\<close> or the \<^verbatim>\<open>put\<close>, or
  one more attempt of a blocked \<^verbatim>\<open>put\<close>), delivers a keyboard interrupt to a worker
  (\<open>Interrupt\<close>: at the head of the loop, inside the \<^verbatim>\<open>try\<close> block, it is caught; in
  \<^verbatim>\<open>rqueue.put\<close> it is not; one that arrives inside \<^verbatim>\<open>main\<close> is \<^verbatim>\<open>main\<close> raising
  \<^verbatim>\<open>KeyboardInterrupt\<close>), or ends a worker from outside (\<open>Kill\<close>). An event for a
  process that has ended changes nothing.
\<close>

datatype event = Run nat | Interrupt nat | Kill nat

fun step ::
  "('o main_args \<Rightarrow> exn + counters) \<Rightarrow> 'o main_args \<Rightarrow> 'o pstate \<Rightarrow> event \<Rightarrow> 'o pstate" where
  "step mainf args s (Run w) =
     (if w < length (procs s) then
        (case procs s ! w of
           Running c \<Rightarrow> process_func_iter mainf args w c s
         | Blocked c \<Rightarrow> publish w c s
         | _ \<Rightarrow> s)
      else s)"
| "step mainf args s (Interrupt w) =
     (if w < length (procs s) then
        (case procs s ! w of
           Running c \<Rightarrow> publish w c s
         | Blocked c \<Rightarrow>
             s\<lparr>procs := (procs s)[w := Died],
               tracebacks := tracebacks s @ [Traceback w KeyboardInterrupt]\<rparr>
         | _ \<Rightarrow> s)
      else s)"
| "step mainf args s (Kill w) =
     (if w < length (procs s) then
        (case procs s ! w of
           Running c \<Rightarrow> s\<lparr>procs := (procs s)[w := Died]\<rparr>
         | Blocked c \<Rightarrow> s\<lparr>procs := (procs s)[w := Died]\<rparr>
         | _ \<Rightarrow> s)
      else s)"

definition run_events ::
  "('o main_args \<Rightarrow> exn + counters) \<Rightarrow> 'o main_args \<Rightarrow> 'o pstate \<Rightarrow> event list \<Rightarrow> 'o pstate" where
  "run_events mainf args s es = foldl (step mainf args) s es"

subsection \<open>Parallel mode (lines 237 to 302)\<close>

text \<open>
  The loop of lines 289 to 294: \<^verbatim>\<open>rqueue.get(False)\<close> until it raises \<^verbatim>\<open>Empty\<close>, adding
  every tuple read.
\<close>

function drain :: "counters queue \<Rightarrow> counters \<Rightarrow> counters" where
  "drain q acc = (case get q of None \<Rightarrow> acc | Some (c, q') \<Rightarrow> drain q' (acc + c))"
  by pat_completeness auto
termination
  by (relation "measure (\<lambda>(q, acc). length (items q))") (auto simp: get_def split: list.splits)

declare drain.simps [simp del]

definition terminated :: "worker \<Rightarrow> bool" where
  "terminated p = (case p of Exited c \<Rightarrow> True | Died \<Rightarrow> True | _ \<Rightarrow> False)"

text \<open>
  What the dispatcher reaches: the summary line with the sums, no summary when it is itself
  interrupted (\<^verbatim>\<open>except (KeyboardInterrupt, OSError): pass\<close>), or still waiting, in
  \<^verbatim>\<open>fqueue.put\<close> or in \<^verbatim>\<open>p.join()\<close> for a process that has not ended.
\<close>

datatype dispatch = Summary counters | NoSummary | Waiting

definition start_state :: "string option queue \<Rightarrow> int \<Rightarrow> 'o pstate" where
  "start_state fq numproc =
     \<lparr>fqueue = fq, rqueue = Queue numproc, procs = replicate (nat numproc) (Running 0),
      calls = [], tracebacks = []\<rparr>"

definition parallel_mode ::
  "('o main_args \<Rightarrow> exn + counters) \<Rightarrow> 'o main_args \<Rightarrow> string list \<Rightarrow> int \<Rightarrow> event list \<Rightarrow> bool
    \<Rightarrow> dispatch \<times> 'o main_args list" where
  "parallel_mode mainf args pyc_paths numproc es interrupted =
     (case fill_fqueue pyc_paths numproc of
        None \<Rightarrow> (Waiting, [])
      | Some fq \<Rightarrow>
          (let s = run_events mainf args (start_state fq numproc) es
           in if interrupted then (NoSummary, calls s)
              else if list_all terminated (procs s) then (Summary (drain (rqueue s) 0), calls s)
              else (Waiting, calls s)))"

text \<open>
  What the workers have written to standard error by the end of the events; nothing when the
  dispatcher is still filling the work queue.
\<close>

definition worker_stderr ::
  "('o main_args \<Rightarrow> exn + counters) \<Rightarrow> 'o main_args \<Rightarrow> string list \<Rightarrow> int \<Rightarrow> event list
    \<Rightarrow> err list" where
  "worker_stderr mainf args pyc_paths numproc es =
     (case fill_fqueue pyc_paths numproc of
        None \<Rightarrow> []
      | Some fq \<Rightarrow> tracebacks (run_events mainf args (start_state fq numproc) es))"

subsection \<open>The dispatch layer of \<^verbatim>\<open>main_bin\<close> (lines 165 to 307)\<close>

text \<open>
  The values of the option variables after the option loop. \<open>kwargs\<close> stands for the keyword
  arguments of the serial call (lines 217 to 223), \<open>options\<close> for the dictionary passed by
  the workers.
\<close>

record 'o config =
  recurse_dirs :: bool
  pyc_paths :: "string list"
  source_paths :: "string list"
  outfile :: "string option"
  numproc :: int
  timestamp :: bool
  kwargs :: 'o
  options :: 'o

definition parallel_run ::
  "('o main_args \<Rightarrow> exn + counters) \<Rightarrow> line list \<Rightarrow> 'o main_args \<Rightarrow> string list \<Rightarrow> int
    \<Rightarrow> event list \<Rightarrow> bool \<Rightarrow> 'o run" where
  "parallel_run mainf ts args paths n es interrupted =
     (case parallel_mode mainf args paths n es interrupted of
        (Summary agg, cs) \<Rightarrow>
          \<lparr>stdout = ts @ [Decompiled agg] @ ts,
           stderr = worker_stderr mainf args paths n es, ending = Returned,
           main_calls = cs, aggregate = Some agg\<rparr>
      | (NoSummary, cs) \<Rightarrow>
          \<lparr>stdout = ts @ ts, stderr = worker_stderr mainf args paths n es, ending = Returned,
           main_calls = cs, aggregate = None\<rparr>
      | (Waiting, cs) \<Rightarrow>
          \<lparr>stdout = ts, stderr = worker_stderr mainf args paths n es, ending = Hangs,
           main_calls = cs, aggregate = None\<rparr>)"

definition main_bin ::
  "(string \<Rightarrow> bool) \<Rightarrow> (string \<Rightarrow> (string \<times> string list \<times> string list) list)
    \<Rightarrow> ('o main_args \<Rightarrow> exn + counters) \<Rightarrow> 'o config \<Rightarrow> event list \<Rightarrow> bool \<Rightarrow> 'o run" where
  "main_bin isdir walk mainf cfg es interrupted =
     (let given = (if recurse_dirs cfg then expand_dirs isdir walk (pyc_paths cfg)
                   else pyc_paths cfg)
      in case path_reducer given of
           Inl e \<Rightarrow>
             \<lparr>stdout = [], stderr = [], ending = Raised e, main_calls = [], aggregate = None\<rparr>
         | Inr (src_base, paths) \<Rightarrow>
             if paths = [] then usage [Written (''No files given'' @ [CHR 0x0A])]
             else
               (let (out_b, outf) = resolve_out isdir (outfile cfg) (length paths);
                    ts = (if timestamp cfg then [Time] else [])
                in if numproc cfg \<le> 1 then
                     serial_mode mainf ts
                       \<lparr>in_base = src_base, out_base = out_b, files = paths,
                        sources = source_paths cfg, out_file = outf, opts = kwargs cfg\<rparr>
                   else
                     parallel_run mainf ts
                       \<lparr>in_base = src_base, out_base = out_b, files = [],
                        sources = [], out_file = outf, opts = options cfg\<rparr>
                       paths (numproc cfg) es interrupted))"

subsection \<open>Quantities and invariants of the protocol\<close>

text \<open>
  The number of workers still in their loop, the tuples that the workers have put on the
  result queue, and the sentinels and paths still on the work queue.
\<close>

definition running :: "worker \<Rightarrow> bool" where
  "running p = (case p of Running c \<Rightarrow> True | _ \<Rightarrow> False)"

definition nrunning :: "worker list \<Rightarrow> nat" where
  "nrunning ps = length (filter running ps)"

definition put_by :: "worker \<Rightarrow> counters multiset" where
  "put_by p = (case p of Exited c \<Rightarrow> {#c#} | _ \<Rightarrow> {#})"

definition published :: "worker list \<Rightarrow> counters multiset" where
  "published ps = sum_list (map put_by ps)"

definition sentinels :: "string option queue \<Rightarrow> nat" where
  "sentinels q = length (filter (\<lambda>x. x = None) (items q))"

definition npaths :: "string option queue \<Rightarrow> nat" where
  "npaths q = length (filter (\<lambda>x. x \<noteq> None) (items q))"

text \<open>The counters a worker holds, whether it is still adding to them or has put them.\<close>

definition held :: "worker \<Rightarrow> counters" where
  "held p = (case p of Running c \<Rightarrow> c | Blocked c \<Rightarrow> c | Exited c \<Rightarrow> c | Died \<Rightarrow> 0)"

text \<open>
  What every reachable state of the protocol satisfies: the result queue has room for one
  tuple of every worker and holds exactly the tuples of the workers that have returned, and
  the work queue holds a sentinel for every worker still in its loop, so that no worker waits
  on either queue.
\<close>

definition proto_inv :: "nat \<Rightarrow> 'o pstate \<Rightarrow> bool" where
  "proto_inv n s \<longleftrightarrow>
     length (procs s) = n \<and> maxsize (rqueue s) = int n \<and>
     nrunning (procs s) \<le> sentinels (fqueue s) \<and>
     mset (items (rqueue s)) = published (procs s) \<and>
     (\<forall>c. Blocked c \<notin> set (procs s))"

text \<open>
  What holds in addition while no worker is interrupted, killed or hit by an exception and
  \<^verbatim>\<open>main\<close> returns the counters \<open>h f\<close> for the file \<open>f\<close>: the work queue is the
  remaining paths followed by one sentinel for every running worker, no sentinel is taken
  before the last path, and the counters held by the workers together with those of the
  remaining paths make up the total.
\<close>

definition good_inv :: "(string \<Rightarrow> counters) \<Rightarrow> string list \<Rightarrow> nat \<Rightarrow> 'o pstate \<Rightarrow> bool" where
  "good_inv h paths n s \<longleftrightarrow>
     proto_inv n s \<and> Died \<notin> set (procs s) \<and>
     (\<exists>ps. items (fqueue s) = map Some ps @ replicate (nrunning (procs s)) None \<and>
        (nrunning (procs s) < n \<longrightarrow> ps = []) \<and>
        sum_list (map held (procs s)) + sum_list (map h ps) = sum_list (map h paths))"

section \<open>Properties of the path reduction\<close>

subsection \<open>The common prefix\<close>

lemma py_min_mem: "py_min a xs \<in> set (a # xs)"
  by (induction xs arbitrary: a) (auto split: if_splits)

lemma py_min_le: "x \<in> set (a # xs) \<Longrightarrow> py_min a xs \<le> x"
proof (induction xs arbitrary: a x)
  case Nil
  then show ?case by simp
next
  case (Cons y ys)
  have acc: "py_min (if y < a then y else a) ys \<le> (if y < a then y else a)"
    using Cons.IH [of "if y < a then y else a" "if y < a then y else a"] by simp
  show ?case
  proof (cases "x \<in> set ys")
    case True
    then show ?thesis using Cons.IH [of x "if y < a then y else a"] by simp
  next
    case False
    with Cons.prems have "x = a \<or> x = y" by auto
    then show ?thesis using acc by (auto split: if_splits)
  qed
qed

lemma py_max_mem: "py_max a xs \<in> set (a # xs)"
  by (induction xs arbitrary: a) (auto split: if_splits)

lemma py_max_ge: "x \<in> set (a # xs) \<Longrightarrow> x \<le> py_max a xs"
proof (induction xs arbitrary: a x)
  case Nil
  then show ?case by simp
next
  case (Cons y ys)
  have acc: "(if a < y then y else a) \<le> py_max (if a < y then y else a) ys"
    using Cons.IH [of "if a < y then y else a" "if a < y then y else a"] by simp
  show ?case
  proof (cases "x \<in> set ys")
    case True
    then show ?thesis using Cons.IH [of x "if a < y then y else a"] by simp
  next
    case False
    with Cons.prems have "x = a \<or> x = y" by auto
    then show ?thesis using acc by (auto split: if_splits)
  qed
qed

lemma scan_prefix_le:
  "s1 \<le> s2 \<Longrightarrow> \<exists>p. scan_prefix s1 s2 = Inr p \<and> prefix p s1 \<and> prefix p s2"
  by (induction s1 s2 rule: scan_prefix.induct) (auto split: sum.splits)

lemma prefix_ConsD: "prefix (c # p) s \<Longrightarrow> \<exists>t. s = c # t \<and> prefix p t"
  by (cases s) simp_all

lemma prefix_between:
  "prefix p s1 \<Longrightarrow> prefix p s2 \<Longrightarrow> s1 \<le> x \<Longrightarrow> x \<le> s2 \<Longrightarrow> prefix p (x :: string)"
proof (induction p arbitrary: s1 s2 x)
  case Nil
  then show ?case by simp
next
  case (Cons c p)
  from prefix_ConsD [OF Cons.prems(1)] obtain t1 where s1: "s1 = c # t1" "prefix p t1" by blast
  from prefix_ConsD [OF Cons.prems(2)] obtain t2 where s2: "s2 = c # t2" "prefix p t2" by blast
  from Cons.prems(3) s1 obtain d y where x: "x = d # y" by (cases x) simp_all
  from Cons.prems(3,4) s1 s2 x have "d = c \<and> t1 \<le> y \<and> y \<le> t2" by auto
  with Cons.IH [OF s1(2) s2(2)] x show ?case by simp
qed

lemma commonprefix_prefix:
  "\<exists>cp. commonprefix m = Inr cp \<and> (\<forall>f \<in> set m. prefix cp f)"
proof (cases m)
  case Nil
  then show ?thesis by (simp add: commonprefix_def)
next
  case (Cons a rest)
  let ?s1 = "py_min a rest" and ?s2 = "py_max a rest"
  have le: "?s1 \<le> ?s2"
    using py_min_le [of a a rest] py_max_ge [of a a rest] by simp
  from scan_prefix_le [OF le] obtain p where
    p: "scan_prefix ?s1 ?s2 = Inr p" "prefix p ?s1" "prefix p ?s2" by blast
  have "prefix p f" if "f \<in> set m" for f
    using prefix_between [OF p(2,3)] py_min_le [of f a rest] py_max_ge [of f a rest] that Cons
    by simp
  with p(1) Cons show ?thesis by (simp add: commonprefix_def)
qed

lemma rfind_sep_ge: "- 1 \<le> rfind_sep p"
  by (induction p) (auto simp: Let_def)

lemma rfind_sep_neg: "rfind_sep p < 0 \<longleftrightarrow> sep \<notin> set p"
  using rfind_sep_ge by (induction p) (auto simp: Let_def)

lemma take_rfind_sep:
  "take (nat (rfind_sep p + 1)) p = rev (dropWhile (\<lambda>c. c \<noteq> sep) (rev p))"
proof (induction p)
  case Nil
  then show ?case by simp
next
  case (Cons c cs)
  show ?case
  proof (cases "sep \<in> set cs")
    case True
    then have r: "0 \<le> rfind_sep cs" using rfind_sep_neg [of cs] by simp
    then have "nat (rfind_sep cs + 1 + 1) = Suc (nat (rfind_sep cs + 1))" by simp
    with True r Cons show ?thesis by (simp add: dropWhile_append1 Let_def)
  next
    case False
    then have r: "rfind_sep cs < 0" using rfind_sep_neg [of cs] by simp
    have "dropWhile (\<lambda>c. c \<noteq> sep) (rev cs @ [c]) = dropWhile (\<lambda>c. c \<noteq> sep) [c]"
      using False by (intro dropWhile_append2) auto
    with r show ?thesis by (simp add: Let_def)
  qed
qed

lemma rstrip_sep_decomp:
  "\<exists>k. s = rstrip_sep s @ replicate k sep"
proof -
  let ?P = "\<lambda>c. c = sep"
  have "rev s = takeWhile ?P (rev s) @ dropWhile ?P (rev s)" by simp
  then have "s = rev (dropWhile ?P (rev s)) @ rev (takeWhile ?P (rev s))"
    by (metis rev_append rev_rev_ident)
  moreover have "rev (takeWhile ?P (rev s)) = replicate (length (takeWhile ?P (rev s))) sep"
    by (intro replicate_eqI) (auto dest: set_takeWhileD)
  ultimately show ?thesis unfolding rstrip_sep_def by metis
qed

lemma rstrip_sep_last: "rstrip_sep s \<noteq> [] \<Longrightarrow> last (rstrip_sep s) \<noteq> sep"
  unfolding rstrip_sep_def
  by (metis (mono_tags, lifting) hd_dropWhile last_rev rev_is_Nil_conv)

lemma head_last:
  "rev (dropWhile (\<lambda>c. c \<noteq> sep) (rev p)) \<noteq> [] \<Longrightarrow>
   last (rev (dropWhile (\<lambda>c. c \<noteq> sep) (rev p))) = sep"
  using hd_dropWhile [of "\<lambda>c. c \<noteq> sep" "rev p"] by (simp add: last_rev)

lemma join_empty: "join a [] = (if a = [] \<or> endswith_sep a then a else a @ [sep])"
  by (simp add: join_def startswith_sep_def)

lemma dirname_join_prefix:
  assumes "dirname cp \<noteq> []"
  shows "prefix (join (dirname cp) []) cp"
proof -
  define h where "h = take (nat (rfind_sep cp + 1)) cp"
  have hp: "prefix h cp" unfolding h_def by (rule take_is_prefix)
  have hl: "h \<noteq> [] \<Longrightarrow> last h = sep"
    unfolding h_def take_rfind_sep by (rule head_last)
  have d: "dirname cp = (if h \<noteq> [] \<and> h \<noteq> replicate (length h) sep then rstrip_sep h else h)"
    unfolding dirname_def h_def by (simp add: Let_def)
  show ?thesis
  proof (cases "h \<noteq> [] \<and> h \<noteq> replicate (length h) sep")
    case True
    with d have b: "dirname cp = rstrip_sep h" by simp
    from rstrip_sep_decomp [of h] obtain k where k: "h = rstrip_sep h @ replicate k sep" by blast
    from assms b have ne: "rstrip_sep h \<noteq> []" by simp
    have "k \<noteq> 0"
    proof
      assume "k = 0"
      with k have "h = rstrip_sep h" by simp
      with rstrip_sep_last [OF ne] hl True show False by simp
    qed
    then obtain j where "k = Suc j" by (cases k) auto
    with k have "h = (rstrip_sep h @ [sep]) @ replicate j sep" by simp
    then have "prefix (rstrip_sep h @ [sep]) h" by (metis prefixI)
    then have "prefix (rstrip_sep h @ [sep]) cp" using hp by (rule prefix_order.trans)
    moreover have "join (rstrip_sep h) [] = rstrip_sep h @ [sep]"
      using ne rstrip_sep_last [OF ne] by (simp add: join_empty endswith_sep_def)
    ultimately show ?thesis using b by simp
  next
    case False
    with d have b: "dirname cp = h" by simp
    with assms False have "h = replicate (length h) sep" "h \<noteq> []" by auto
    then have "endswith_sep h" 
      by (metis endswith_sep_def hl)
    with b hp show ?thesis by (simp add: join_empty)
  qed
qed

lemma base_join_prefix:
  assumes "base_of cp \<noteq> []"
  shows "prefix (join (base_of cp) []) cp"
proof (cases "last_slice cp \<noteq> [sep]")
  case True
  with assms dirname_join_prefix [of cp] show ?thesis by (simp add: base_of_def)
next
  case False
  then have "cp \<noteq> []" "last cp = sep" by (auto simp: last_slice_def split: if_splits)
  with False show ?thesis by (simp add: base_of_def join_empty endswith_sep_def)
qed

lemma strip_rejoin:
  assumes "\<forall>f \<in> set paths. prefix cp f"
  shows "map (\<lambda>r. join (base_of cp) [] @ r) (strip_base (base_of cp) paths) = paths"
proof (cases "base_of cp = []")
  case True
  then show ?thesis by (simp add: strip_base_def join_empty)
next
  case False
  have "prefix (join (base_of cp) []) f" if "f \<in> set paths" for f
    using base_join_prefix [OF False] assms that by (meson prefix_order.trans)
  then have "join (base_of cp) [] @ drop (length (join (base_of cp) [])) f = f"
    if "f \<in> set paths" for f
    using that by (metis append_eq_conv_conj prefixE)
  with False show ?thesis by (simp add: strip_base_def Let_def map_idI)
qed

subsection \<open>The claims about the reduction\<close>

lemma scan_prefix_same: "scan_prefix p p = Inr p"
  by (induction p) simp_all

lemma commonprefix_single: "commonprefix [p] = Inr p"
  by (simp add: commonprefix_def scan_prefix_same)

lemma join_empty_ends: "a \<noteq> [] \<Longrightarrow> endswith_sep (join a [])"
  by (simp add: join_empty endswith_sep_def)

text \<open>
  Claim C2. For the paths \<^verbatim>\<open>some/classes/a.pyc\<close> and \<^verbatim>\<open>some/cmds/b.pyc\<close> the character-wise
  common prefix is \<^verbatim>\<open>some/c\<close>, the base is cut back to the directory \<^verbatim>\<open>some\<close>, the
  prefix that is stripped (the base joined with the empty component) is \<^verbatim>\<open>some/\<close>, and the
  relative paths are \<^verbatim>\<open>classes/a.pyc\<close> and \<^verbatim>\<open>cmds/b.pyc\<close>.
\<close>
theorem reduce_classes_cmds:
  "commonprefix [''some/classes/a.pyc'', ''some/cmds/b.pyc''] = Inr ''some/c'' \<and>
   path_reducer [''some/classes/a.pyc'', ''some/cmds/b.pyc'']
     = Inr (''some'', [''classes/a.pyc'', ''cmds/b.pyc'']) \<and>
   join ''some'' [] = ''some/''"
  by code_simp

text \<open>
  Claim C1. The reduction never fails, keeps the number and the order of the paths, and
  putting the stripped prefix (the base with its trailing separator) back in front of every
  relative path gives the input paths again.
\<close>
theorem path_reducer_roundtrip:
  "\<exists>src_base rel. path_reducer paths = Inr (src_base, rel) \<and>
     length rel = length paths \<and>
     map (\<lambda>r. join src_base [] @ r) rel = paths"
proof -
  from commonprefix_prefix [of paths] obtain cp where
    cp: "commonprefix paths = Inr cp" "\<forall>f \<in> set paths. prefix cp f" by blast
  have red: "path_reducer paths = Inr (base_of cp, strip_base (base_of cp) paths)"
    using cp(1) by (simp add: path_reducer_def Let_def)
  have len: "length (strip_base (base_of cp) paths) = length paths"
    by (simp add: strip_base_def Let_def)
  from red len strip_rejoin [OF cp(2)] show ?thesis by blast
qed

theorem path_reducer_roundtrip_witness:
  "map (\<lambda>r. join ''a'' [] @ r) [''/bx'', ''/by''] = [''a//bx'', ''a//by''] \<and>
   path_reducer [''a//bx'', ''a//by''] = Inr (''a'', [''/bx'', ''/by''])"
proof -
  have "path_reducer [''a//bx'', ''a//by''] = Inr (''a'', [''/bx'', ''/by''])" by code_simp
  with path_reducer_roundtrip [of "[''a//bx'', ''a//by'']"] show ?thesis by simp
qed

text \<open>
  Claim C6, as stated, fails: for the single path \<^verbatim>\<open>a/b.pyc\<close> the base is \<^verbatim>\<open>a\<close> and the
  relative path is \<^verbatim>\<open>b.pyc\<close>, not the empty string.
\<close>

theorem single_path_relative_counterexample:
  "path_reducer [''a/b.pyc''] = Inr (''a'', [''b.pyc'']) \<and>
   path_reducer [''a/b.pyc''] \<noteq> Inr (''a/b.pyc'', [''''])"
  by code_simp

text \<open>
  Claim C6, amended. For a single path \<open>p\<close> the character-wise common prefix is \<open>p\<close> itself,
  but the base is cut back to a directory boundary: the relative path is what follows the
  base with its trailing separator, and it is empty exactly when \<open>p\<close> is empty or ends with
  the separator.
\<close>

theorem single_path_relative:
  "commonprefix [p] = Inr p \<and>
   (\<exists>src_base r. path_reducer [p] = Inr (src_base, [r]) \<and>
      join src_base [] @ r = p \<and>
      (r = [] \<longleftrightarrow> p = [] \<or> last p = sep))"
proof -
  let ?b = "base_of p"
  let ?r = "hd (strip_base ?b [p])"
  have red: "path_reducer [p] = Inr (?b, strip_base ?b [p])"
    by (simp add: path_reducer_def commonprefix_single Let_def)
  have one: "strip_base ?b [p] = [?r]"
    by (simp add: strip_base_def Let_def)
  have "map (\<lambda>r. join ?b [] @ r) (strip_base ?b [p]) = [p]"
    by (rule strip_rejoin) simp
  then have "map (\<lambda>r. join ?b [] @ r) [?r] = [p]"
    by (subst (asm) one)
  then have rt: "join ?b [] @ ?r = p"
    by simp
  have emp: "?r = [] \<longleftrightarrow> p = [] \<or> last p = sep"
  proof (cases "p = [] \<or> last p = sep")
    case True
    then show ?thesis
    proof (cases "p = []")
      case True
      with rt show ?thesis by simp
    next
      case False
      with True have "?b = p" by (simp add: base_of_def last_slice_def)
      with False True show ?thesis
        by (simp add: strip_base_def Let_def join_empty endswith_sep_def)
    qed
  next
    case False
    have "?r \<noteq> []"
    proof
      assume e: "?r = []"
      with rt have j: "join ?b [] = p" by simp
      with False have "?b \<noteq> []" by (auto simp: join_empty)
      from join_empty_ends [OF this] j False show False by (simp add: endswith_sep_def)
    qed
    with False show ?thesis by simp
  qed
  from red one rt emp show ?thesis by (simp add: commonprefix_single) metis
qed

theorem single_path_relative_witness:
  "path_reducer [''a/b.pyc''] = Inr (''a'', [''b.pyc'']) \<and> ''b.pyc'' \<noteq> [] \<and>
   last ''a/b.pyc'' \<noteq> sep \<and> commonprefix [''a/b.pyc''] = Inr ''a/b.pyc''"
proof -
  have "path_reducer [''a/b.pyc''] = Inr (''a'', [''b.pyc''])" by code_simp
  with single_path_relative [of "''a/b.pyc''"] show ?thesis by (simp add: sep_def)
qed

section \<open>Properties of the dispatch layer\<close>

lemma path_reducer_Nil: "path_reducer [] = Inr ([], [])"
  by (simp add: path_reducer_def commonprefix_def base_of_def last_slice_def dirname_def
      strip_base_def)

text \<open>
  Claim C8. With no input paths the dispatch layer writes \<^verbatim>\<open>No files given\<close> to standard
  error, prints the usage text and exits with status 1; \<^verbatim>\<open>main\<close> is never called.
\<close>
theorem no_files_usage_error:
  assumes "pyc_paths cfg = []"
  shows "main_bin isdir walk mainf cfg es interrupted =
      \<lparr>stdout = [Doc], stderr = [Written (''No files given'' @ [CHR 0x0A])],
       ending = SysExit 1, main_calls = [], aggregate = None\<rparr>"
  using assms by (simp add: main_bin_def expand_dirs_def path_reducer_Nil usage_def)

theorem no_files_usage_error_witness:
  "main_bin (\<lambda>f. False) (\<lambda>f. []) (\<lambda>a. Inr (Counters 1 1 0 0))
     \<lparr>recurse_dirs = False, pyc_paths = [], source_paths = [], outfile = None, numproc = 4,
      timestamp = True, kwargs = (), options = ()\<rparr> [Run 0, Run 1] False =
   \<lparr>stdout = [Doc], stderr = [Written (''No files given'' @ [CHR 0x0A])],
    ending = SysExit 1, main_calls = [], aggregate = None\<rparr>"
  using no_files_usage_error [of "\<lparr>recurse_dirs = False, pyc_paths = [], source_paths = [],
      outfile = None, numproc = 4, timestamp = True, kwargs = (), options = ()\<rparr>"]
  by simp

lemma main_bin_serial_calls:
  assumes "numproc cfg \<le> 1"
    and "main_calls (main_bin isdir walk mainf cfg es interrupted) = [a]"
  shows "main_bin isdir walk mainf cfg es interrupted =
    serial_mode mainf (if timestamp cfg then [Time] else []) a"
proof -
  let ?given = "if recurse_dirs cfg then expand_dirs isdir walk (pyc_paths cfg) else pyc_paths cfg"
  show ?thesis
  proof (cases "path_reducer ?given")
    case (Inl e)
    with assms(2) show ?thesis by (simp add: main_bin_def)
  next
    case (Inr bp)
    obtain b ps where bp: "bp = (b, ps)" by (cases bp)
    show ?thesis
    proof (cases "ps = []")
      case True
      with Inr bp assms(2) show ?thesis by (simp add: main_bin_def usage_def)
    next
      case False
      obtain ob outf where r: "resolve_out isdir (outfile cfg) (length ps) = (ob, outf)"
        by (cases "resolve_out isdir (outfile cfg) (length ps)")
      let ?args = "\<lparr>in_base = b, out_base = ob, files = ps, sources = source_paths cfg,
          out_file = outf, opts = kwargs cfg\<rparr>"
      let ?ts = "if timestamp cfg then [Time] else []"
      have m: "main_bin isdir walk mainf cfg es interrupted = serial_mode mainf ?ts ?args"
        using Inr bp False r assms(1) by (simp add: main_bin_def Let_def)
      have "main_calls (serial_mode mainf ?ts ?args) = [?args]"
        by (simp add: serial_mode_def split: sum.splits)
      with m assms(2) have "a = ?args" by simp
      with m show ?thesis by simp
    qed
  qed
qed

text \<open>
  Claim C9. In serial mode, when the one call of \<^verbatim>\<open>main\<close> raises \<^verbatim>\<open>VerifyCmpError\<close> the
  run ends with that exception, without aggregate and without status line; when it raises
  \<^verbatim>\<open>KeyboardInterrupt\<close> the run returns normally.
\<close>
theorem serial_verify_error_propagates:
  assumes "numproc cfg \<le> 1"
    and "main_calls (main_bin isdir walk mainf cfg es interrupted) = [a]"
  shows "(mainf a = Inl VerifyCmpError \<longrightarrow>
        ending (main_bin isdir walk mainf cfg es interrupted) = Raised VerifyCmpError \<and>
        aggregate (main_bin isdir walk mainf cfg es interrupted) = None \<and>
        (\<forall>c. Status c \<notin> set (stdout (main_bin isdir walk mainf cfg es interrupted)))) \<and>
    (mainf a = Inl KeyboardInterrupt \<longrightarrow>
        ending (main_bin isdir walk mainf cfg es interrupted) = Returned \<and>
        stderr (main_bin isdir walk mainf cfg es interrupted) = [] \<and>
        aggregate (main_bin isdir walk mainf cfg es interrupted) = None)"
proof -
  have "main_bin isdir walk mainf cfg es interrupted =
      serial_mode mainf (if timestamp cfg then [Time] else []) a"
    using assms by (rule main_bin_serial_calls)
  then show ?thesis by (simp add: serial_mode_def)
qed

theorem serial_verify_error_propagates_witness:
  "ending (main_bin (\<lambda>f. False) (\<lambda>f. []) (\<lambda>a. Inl VerifyCmpError)
     \<lparr>recurse_dirs = False, pyc_paths = [''lib/a.pyc'', ''lib/b.pyc''], source_paths = [],
      outfile = None, numproc = 1, timestamp = False, kwargs = (), options = ()\<rparr> [] False)
     = Raised VerifyCmpError \<and>
   ending (main_bin (\<lambda>f. False) (\<lambda>f. []) (\<lambda>a. Inl KeyboardInterrupt)
     \<lparr>recurse_dirs = False, pyc_paths = [''lib/a.pyc'', ''lib/b.pyc''], source_paths = [],
      outfile = None, numproc = 1, timestamp = False, kwargs = (), options = ()\<rparr> [] False)
     = Returned"
proof -
  let ?cfg = "\<lparr>recurse_dirs = False, pyc_paths = [''lib/a.pyc'', ''lib/b.pyc''],
      source_paths = [], outfile = None, numproc = 1, timestamp = False, kwargs = (),
      options = ()\<rparr>"
  let ?a = "\<lparr>in_base = ''lib/'', out_base = None, files = [''a.pyc'', ''b.pyc''],
      sources = [], out_file = None, opts = ()\<rparr>"
  have r: "path_reducer [''lib/a.pyc'', ''lib/b.pyc''] = Inr (''lib/'', [''a.pyc'', ''b.pyc''])"
    by code_simp
  have c: "main_calls (main_bin (\<lambda>f. False) (\<lambda>f. []) mainf ?cfg [] False) = [?a]" for mainf
    by (simp add: main_bin_def r resolve_out_def serial_mode_def split: sum.splits)
  have n: "numproc ?cfg \<le> 1" by simp
  from serial_verify_error_propagates [OF n c [of "\<lambda>a. Inl VerifyCmpError"]]
    serial_verify_error_propagates [OF n c [of "\<lambda>a. Inl KeyboardInterrupt"]]
  show ?thesis by simp
qed









section \<open>Properties of the worker protocol\<close>

subsection \<open>Sums over the workers and the drain loop\<close>

lemma sum_list_map_update:
  "i < length xs \<Longrightarrow>
   sum_list (map f (xs[i := y])) + f (xs ! i) = sum_list (map f xs) + (f y :: 'a::comm_monoid_add)"
proof (induction xs arbitrary: i)
  case Nil
  then show ?case by simp
next
  case (Cons x xs)
  show ?case
  proof (cases i)
    case 0
    then show ?thesis by (simp add: ac_simps)
  next
    case (Suc j)
    with Cons.prems have "j < length xs" by simp
    from Cons.IH [OF this] Suc show ?thesis by (simp add: ac_simps)
  qed
qed

lemma nrunning_sum: "nrunning ps = sum_list (map (\<lambda>p. if running p then 1 else 0) ps)"
  by (induction ps) (simp_all add: nrunning_def)

lemma nrunning_update:
  "i < length ps \<Longrightarrow>
   nrunning (ps[i := q]) + (if running (ps ! i) then 1 else 0)
     = nrunning ps + (if running q then 1 else 0)"
  unfolding nrunning_sum
  by (rule sum_list_map_update [where f = "\<lambda>p. if running p then 1 else (0::nat)"])

lemma published_update:
  "i < length ps \<Longrightarrow> published (ps[i := q]) + put_by (ps ! i) = published ps + put_by q"
  unfolding published_def by (rule sum_list_map_update)

lemma published_size: "size (published ps) + nrunning ps \<le> length ps"
proof (induction ps)
  case Nil
  then show ?case by (simp add: published_def nrunning_def)
next
  case (Cons p ps)
  then show ?case
    by (cases p) (simp_all add: published_def nrunning_def put_by_def running_def)
qed

lemma nrunning_pos:
  assumes "i < length ps" and "ps ! i = Running c"
  shows "0 < nrunning ps"
proof -
  have "ps ! i \<in> set ps" using assms(1) by simp
  then have "ps ! i \<in> set (filter running ps)" using assms(2) by (simp add: running_def)
  then show ?thesis unfolding nrunning_def by (rule length_pos_if_in_set)
qed

lemma drain_sum: "drain q acc = acc + sum_list (items q)"
proof (induction q acc rule: drain.induct)
  case (1 q acc)
  show ?case
  proof (cases "items q")
    case Nil
    then show ?thesis by (subst drain.simps) (simp add: get_def)
  next
    case (Cons c cs)
    then have g: "get q = Some (c, q\<lparr>items := cs\<rparr>)" by (simp add: get_def)
    have "drain q acc = drain (q\<lparr>items := cs\<rparr>) (acc + c)"
      using g by (subst drain.simps) simp
    also have "\<dots> = acc + c + sum_list (items (q\<lparr>items := cs\<rparr>))"
      using "1.IH" [OF g refl] by simp
    finally show ?thesis using Cons by (simp add: ac_simps)
  qed
qed


subsection \<open>The steps of a worker\<close>

lemma publish_running:
  assumes "maxsize (rqueue s) = int (length (procs s))"
    and "mset (items (rqueue s)) = published (procs s)"
    and "w < length (procs s)" and "procs s ! w = Running c"
  shows "publish w c s =
    s\<lparr>rqueue := (rqueue s)\<lparr>items := items (rqueue s) @ [c]\<rparr>, procs := (procs s)[w := Exited c]\<rparr>"
proof -
  have "length (items (rqueue s)) = size (mset (items (rqueue s)))" by simp
  then have "length (items (rqueue s)) = size (published (procs s))"
    using assms(2) by simp
  moreover have "0 < nrunning (procs s)" using assms(3,4) by (rule nrunning_pos)
  ultimately have "length (items (rqueue s)) < length (procs s)"
    using published_size [of "procs s"] by simp
  with assms(1) have "\<not> full (rqueue s)" by (simp add: full_def)
  then show ?thesis by (simp add: publish_def put_def)
qed

lemma get_cases:
  "get q = None \<longleftrightarrow> items q = []"
  "get q = Some (x, q') \<longleftrightarrow> (\<exists>xs. items q = x # xs \<and> q' = q\<lparr>items := xs\<rparr>)"
  by (auto simp: get_def split: list.splits)

lemma set_update_Blocked:
  "\<forall>c. Blocked c \<notin> set ps \<Longrightarrow> \<forall>c. q \<noteq> Blocked c \<Longrightarrow> \<forall>c. Blocked c \<notin> set (ps[i := q])"
  using set_update_subset_insert [of ps i q] by auto

lemma inv_died:
  assumes "proto_inv n s" "w < n" "procs s ! w = Running c"
    and "procs s' = (procs s)[w := Died]" and "rqueue s' = rqueue s"
    and "sentinels (fqueue s) \<le> sentinels (fqueue s') + 1"
  shows "proto_inv n s'"
proof -
  from assms(1) have len: "length (procs s) = n" by (simp add: proto_inv_def)
  with assms(2) have w: "w < length (procs s)" by simp
  have "nrunning ((procs s)[w := Died]) + 1 = nrunning (procs s)"
    using nrunning_update [OF w, of Died] assms(3) by (simp add: running_def)
  moreover have "published ((procs s)[w := Died]) = published (procs s)"
    using published_update [OF w, of Died] assms(3) by (simp add: put_by_def)
  moreover have "\<forall>c. Blocked c \<notin> set ((procs s)[w := Died])"
    using assms(1) by (intro set_update_Blocked) (simp_all add: proto_inv_def)
  ultimately show ?thesis using assms(1,4,5,6) by (simp add: proto_inv_def)
qed

lemma inv_exited:
  assumes "proto_inv n s" "w < n" "procs s ! w = Running c"
    and "procs s' = (procs s)[w := Exited c]"
    and "rqueue s' = (rqueue s)\<lparr>items := items (rqueue s) @ [c]\<rparr>"
    and "sentinels (fqueue s) \<le> sentinels (fqueue s') + 1"
  shows "proto_inv n s'"
proof -
  from assms(1) have len: "length (procs s) = n" by (simp add: proto_inv_def)
  with assms(2) have w: "w < length (procs s)" by simp
  have "nrunning ((procs s)[w := Exited c]) + 1 = nrunning (procs s)"
    using nrunning_update [OF w, of "Exited c"] assms(3) by (simp add: running_def)
  moreover have "published ((procs s)[w := Exited c]) = published (procs s) + {#c#}"
    using published_update [OF w, of "Exited c"] assms(3) by (simp add: put_by_def)
  moreover have "\<forall>c'. Blocked c' \<notin> set ((procs s)[w := Exited c])"
    using assms(1) by (intro set_update_Blocked) (simp_all add: proto_inv_def)
  ultimately show ?thesis using assms(1,4,5,6) by (simp add: proto_inv_def)
qed

lemma inv_running:
  assumes "proto_inv n s" "w < n" "procs s ! w = Running c"
    and "procs s' = (procs s)[w := Running c']" and "rqueue s' = rqueue s"
    and "sentinels (fqueue s) \<le> sentinels (fqueue s')"
  shows "proto_inv n s'"
proof -
  from assms(1) have len: "length (procs s) = n" by (simp add: proto_inv_def)
  with assms(2) have w: "w < length (procs s)" by simp
  have "nrunning ((procs s)[w := Running c']) = nrunning (procs s)"
    using nrunning_update [OF w, of "Running c'"] assms(3) by (simp add: running_def)
  moreover have "published ((procs s)[w := Running c']) = published (procs s)"
    using published_update [OF w, of "Running c'"] assms(3) by (simp add: put_by_def)
  moreover have "\<forall>c. Blocked c \<notin> set ((procs s)[w := Running c'])"
    using assms(1) by (intro set_update_Blocked) (simp_all add: proto_inv_def)
  ultimately show ?thesis using assms(1,4,5,6) by (simp add: proto_inv_def)
qed

lemma inv_publish:
  assumes "proto_inv n s" "w < n" "procs s ! w = Running c"
  shows "publish w c s =
    s\<lparr>rqueue := (rqueue s)\<lparr>items := items (rqueue s) @ [c]\<rparr>, procs := (procs s)[w := Exited c]\<rparr>"
  using assms by (intro publish_running) (simp_all add: proto_inv_def)

lemma sentinels_get:
  "get q = Some (x, q') \<Longrightarrow> sentinels q = sentinels q' + (if x = None then 1 else 0)"
  by (auto simp: get_cases sentinels_def)

lemma inv_fqueue_nonempty:
  assumes "proto_inv n s" "w < n" "procs s ! w = Running c"
  shows "get (fqueue s) \<noteq> None"
proof -
  from assms have "0 < nrunning (procs s)" by (intro nrunning_pos [of w _ c]) (simp_all add: proto_inv_def)
  with assms(1) have "0 < sentinels (fqueue s)" by (simp add: proto_inv_def)
  then show ?thesis by (auto simp: get_cases sentinels_def)
qed

lemma step_interrupt:
  assumes "proto_inv n s" "w < n" "procs s ! w = Running c"
  shows "step mainf args s (Interrupt w) =
    s\<lparr>rqueue := (rqueue s)\<lparr>items := items (rqueue s) @ [c]\<rparr>, procs := (procs s)[w := Exited c]\<rparr>"
proof -
  from assms(1,2) have "w < length (procs s)" by (simp add: proto_inv_def)
  with assms(3) have "step mainf args s (Interrupt w) = publish w c s" by simp
  with inv_publish [OF assms] show ?thesis by simp
qed

lemma step_kill:
  assumes "proto_inv n s" "w < n" "procs s ! w = Running c"
  shows "step mainf args s (Kill w) = s\<lparr>procs := (procs s)[w := Died]\<rparr>"
  using assms by (simp add: proto_inv_def)

lemma step_sentinel:
  assumes "proto_inv n s" "w < n" "procs s ! w = Running c"
    and "get (fqueue s) = Some (None, fq)"
  shows "step mainf args s (Run w) =
    s\<lparr>fqueue := fq, rqueue := (rqueue s)\<lparr>items := items (rqueue s) @ [c]\<rparr>,
      procs := (procs s)[w := Exited c]\<rparr>"
proof -
  from assms(1,2) have "w < length (procs s)" by (simp add: proto_inv_def)
  with assms(3,4) have "step mainf args s (Run w) = publish w c (s\<lparr>fqueue := fq\<rparr>)"
    by (simp add: process_func_iter_def)
  moreover have "publish w c (s\<lparr>fqueue := fq\<rparr>) =
    (s\<lparr>fqueue := fq\<rparr>)\<lparr>rqueue := (rqueue (s\<lparr>fqueue := fq\<rparr>))\<lparr>items := items (rqueue (s\<lparr>fqueue := fq\<rparr>)) @ [c]\<rparr>,
      procs := (procs (s\<lparr>fqueue := fq\<rparr>))[w := Exited c]\<rparr>"
    using assms(1,2,3) by (intro publish_running) (simp_all add: proto_inv_def)
  ultimately show ?thesis by simp
qed

lemma step_path_ok:
  assumes "proto_inv n s" "w < n" "procs s ! w = Running c"
    and "get (fqueue s) = Some (Some f, fq)"
    and "mainf (args\<lparr>files := [f], sources := []\<rparr>) = Inr r"
  shows "step mainf args s (Run w) =
    s\<lparr>fqueue := fq, calls := calls s @ [args\<lparr>files := [f], sources := []\<rparr>],
      procs := (procs s)[w := Running (c + r)]\<rparr>"
proof -
  from assms(1,2) have "w < length (procs s)" by (simp add: proto_inv_def)
  with assms(3,4,5) show ?thesis by (simp add: process_func_iter_def Let_def)
qed

lemma step_path_caught:
  assumes "proto_inv n s" "w < n" "procs s ! w = Running c"
    and "get (fqueue s) = Some (Some f, fq)"
    and "mainf (args\<lparr>files := [f], sources := []\<rparr>) = Inl e"
    and "e = Empty \<or> e = KeyboardInterrupt"
  shows "step mainf args s (Run w) =
    s\<lparr>fqueue := fq, calls := calls s @ [args\<lparr>files := [f], sources := []\<rparr>],
      rqueue := (rqueue s)\<lparr>items := items (rqueue s) @ [c]\<rparr>,
      procs := (procs s)[w := Exited c]\<rparr>"
proof -
  let ?a = "args\<lparr>files := [f], sources := []\<rparr>"
  let ?s = "s\<lparr>fqueue := fq, calls := calls s @ [?a]\<rparr>"
  from assms(1,2) have "w < length (procs s)" by (simp add: proto_inv_def)
  with assms(3,4,5,6) have "step mainf args s (Run w) = publish w c ?s"
    by (auto simp add: process_func_iter_def Let_def)
  moreover have "publish w c ?s =
    ?s\<lparr>rqueue := (rqueue ?s)\<lparr>items := items (rqueue ?s) @ [c]\<rparr>, procs := (procs ?s)[w := Exited c]\<rparr>"
    using assms(1,2,3) by (intro publish_running) (simp_all add: proto_inv_def)
  ultimately show ?thesis by simp
qed

lemma step_path_uncaught:
  assumes "proto_inv n s" "w < n" "procs s ! w = Running c"
    and "get (fqueue s) = Some (Some f, fq)"
    and "mainf (args\<lparr>files := [f], sources := []\<rparr>) = Inl e"
    and "e \<noteq> Empty" "e \<noteq> KeyboardInterrupt"
  shows "step mainf args s (Run w) =
    s\<lparr>fqueue := fq, calls := calls s @ [args\<lparr>files := [f], sources := []\<rparr>],
      procs := (procs s)[w := Died], tracebacks := tracebacks s @ [Traceback w e]\<rparr>"
proof -
  from assms(1,2) have "w < length (procs s)" by (simp add: proto_inv_def)
  with assms(3-) show ?thesis by (simp add: process_func_iter_def Let_def)
qed

lemma step_idle:
  assumes "proto_inv n s" and "w < n \<longrightarrow> \<not> running (procs s ! w)"
    and that: "e = Run w \<or> e = Interrupt w \<or> e = Kill w"
  shows "step mainf args s e = s"
proof -
  have len: "length (procs s) = n" using assms(1) by (simp add: proto_inv_def)
  show ?thesis
  proof (cases "w < n")
    case False
    with len that show ?thesis by auto
  next
    case True
    with assms(2) have nr: "\<not> running (procs s ! w)" by simp
    from True len have "procs s ! w \<in> set (procs s)" by simp
    with assms(1) have "\<forall>c. procs s ! w \<noteq> Blocked c" by (auto simp: proto_inv_def)
    with nr that show ?thesis by (cases "procs s ! w") (auto simp: running_def)
  qed
qed

lemma step_cases:
  assumes inv: "proto_inv n s"
  obtains (idle) w where "e = Run w \<or> e = Interrupt w \<or> e = Kill w"
      "w < n \<longrightarrow> \<not> running (procs s ! w)" "step mainf args s e = s"
  | (interrupt) w c where "w < n" "procs s ! w = Running c" "e = Interrupt w"
  | (kill) w c where "w < n" "procs s ! w = Running c" "e = Kill w"
  | (sentinel) w c fq where "w < n" "procs s ! w = Running c" "e = Run w"
      "get (fqueue s) = Some (None, fq)"
  | (path) w c f fq where "w < n" "procs s ! w = Running c" "e = Run w"
      "get (fqueue s) = Some (Some f, fq)"
proof -
  obtain w where e: "e = Run w \<or> e = Interrupt w \<or> e = Kill w" by (cases e) auto
  show thesis
  proof (cases "w < n \<and> running (procs s ! w)")
    case False
    then have "w < n \<longrightarrow> \<not> running (procs s ! w)" by simp
    from e this step_idle [OF inv this e] show thesis by (rule idle)
  next
    case True
    then obtain c where w: "w < n" "procs s ! w = Running c"
      by (cases "procs s ! w") (auto simp: running_def)
    from inv_fqueue_nonempty [OF inv w] obtain x fq where g: "get (fqueue s) = Some (x, fq)"
      by (cases "get (fqueue s)") auto
    from e show thesis
    proof (elim disjE)
      assume r: "e = Run w"
      show thesis
      proof (cases x)
        case None
        with g w r show thesis by (intro sentinel [of w c fq]) simp_all
      next
        case (Some f)
        with g w r show thesis by (intro path [of w c f fq]) simp_all
      qed
    next
      assume "e = Interrupt w"
      with w show thesis by (intro interrupt [of w c]) simp_all
    next
      assume "e = Kill w"
      with w show thesis by (intro kill [of w c]) simp_all
    qed
  qed
qed

lemma step_inv:
  assumes inv: "proto_inv n s"
  shows "proto_inv n (step mainf args s e)"
proof (rule step_cases [OF inv, where mainf = mainf and args = args and e = "e"], goal_cases)
  case idle: 1
  with inv show ?thesis by simp
next
  case interrupt: (2 w c)
  show ?thesis
    unfolding interrupt(3) step_interrupt [OF inv interrupt(1,2)]
    by (rule inv_exited [OF inv interrupt(1,2)]) simp_all
next
  case kill: (3 w c)
  show ?thesis
    unfolding kill(3) step_kill [OF inv kill(1,2)]
    by (rule inv_died [OF inv kill(1,2)]) simp_all
next
  case sentinel: (4 w c fq)
  show ?thesis
    unfolding sentinel(3) step_sentinel [OF inv sentinel(1,2,4)]
    by (rule inv_exited [OF inv sentinel(1,2)]) (simp_all add: sentinels_get [OF sentinel(4)])
next
  case path: (5 w c f fq)
  let ?a = "args\<lparr>files := [f], sources := []\<rparr>"
  show ?thesis
  proof (cases "mainf ?a")
    case (Inr r)
    show ?thesis
      unfolding path(3) step_path_ok [where mainf = mainf and args = args, OF inv path(1,2,4) Inr]
      by (rule inv_running [OF inv path(1,2)]) (simp_all add: sentinels_get [OF path(4)])
  next
    case (Inl ex)
    show ?thesis
    proof (cases "ex = Empty \<or> ex = KeyboardInterrupt")
      case True
      show ?thesis
        unfolding path(3) step_path_caught [where mainf = mainf and args = args, OF inv path(1,2,4) Inl True]
        by (rule inv_exited [OF inv path(1,2)]) (simp_all add: sentinels_get [OF path(4)])
    next
      case False
      then have ne: "ex \<noteq> Empty" "ex \<noteq> KeyboardInterrupt" by simp_all
      show ?thesis
        unfolding path(3) step_path_uncaught [where mainf = mainf and args = args, OF inv path(1,2,4) Inl ne]
        by (rule inv_died [OF inv path(1,2)]) (simp_all add: sentinels_get [OF path(4)])
    qed
  qed
qed

lemma run_events_inv:
  "proto_inv n s \<Longrightarrow> proto_inv n (run_events mainf args s es)"
  unfolding run_events_def
  by (induction es arbitrary: s) (simp_all add: step_inv)

lemma put_all_fits:
  "maxsize q \<le> 0 \<or> int (length (items q) + length xs) \<le> maxsize q \<Longrightarrow>
   put_all q xs = Some (q\<lparr>items := items q @ xs\<rparr>)"
proof (induction xs arbitrary: q)
  case Nil
  then show ?case by simp
next
  case (Cons x xs)
  from Cons.prems have p: "put q x = Some (q\<lparr>items := items q @ [x]\<rparr>)"
    by (auto simp: put_def full_def)
  from Cons.prems have "maxsize (q\<lparr>items := items q @ [x]\<rparr>) \<le> 0 \<or>
    int (length (items (q\<lparr>items := items q @ [x]\<rparr>)) + length xs)
      \<le> maxsize (q\<lparr>items := items q @ [x]\<rparr>)" by auto
  from Cons.IH [OF this] p show ?case by simp
qed

lemma fill_fqueue_fits:
  "0 \<le> np \<Longrightarrow>
   fill_fqueue paths np =
     Some \<lparr>maxsize = int (length paths) + np,
           items = map Some paths @ replicate (nat np) None\<rparr>"
proof -
  assume n: "0 \<le> np"
  let ?q = "Queue (int (length paths) + np) :: string option queue"
  have a: "put_all ?q (map Some paths) = Some (?q\<lparr>items := items ?q @ map Some paths\<rparr>)"
    using n by (intro put_all_fits) (simp add: Queue_def)
  let ?q' = "?q\<lparr>items := items ?q @ map Some paths\<rparr>"
  have b: "put_all ?q' (replicate (nat np) None) = Some (?q'\<lparr>items := items ?q' @ replicate (nat np) None\<rparr>)"
    using n by (intro put_all_fits) (simp add: Queue_def)
  show ?thesis unfolding fill_fqueue_def a using b by (simp add: Queue_def)
qed

lemma start_state_inv:
  assumes "0 \<le> np" and "fill_fqueue paths np = Some fq"
  shows "proto_inv (nat np) (start_state fq np)"
proof -
  from assms fill_fqueue_fits [OF assms(1), of paths]
  have fq: "items fq = map Some paths @ replicate (nat np) None" by auto
  have "filter (\<lambda>x. x = None) (map Some paths) = []" by (induction paths) simp_all
  with fq have "sentinels fq = nat np" by (simp add: sentinels_def)
  moreover have "nrunning (replicate (nat np) (Running 0)) = nat np"
    by (simp add: nrunning_def running_def)
  moreover have "published (replicate k (Running 0)) = {#}" for k
    by (induction k) (simp_all add: published_def put_by_def)
  ultimately show ?thesis using assms(1)
    by (simp add: proto_inv_def start_state_def Queue_def)
qed

subsection \<open>Reachable states\<close>

lemma reachable_inv:
  assumes "1 < np" and "fill_fqueue paths np = Some fq"
  shows "proto_inv (nat np) (run_events mainf args (start_state fq np) es)"
  using assms by (intro run_events_inv start_state_inv [of np paths]) simp_all

lemma step_exited_stays:
  assumes inv: "proto_inv n s" and w: "w < n" "procs s ! w = Exited c"
  shows "procs (step mainf args s e) ! w = Exited c"
proof (rule step_cases [OF inv, where mainf = mainf and args = args and e = "e"], goal_cases)
  case 1
  with w show ?thesis by simp
next
  case (2 v d)
  with w have "v \<noteq> w" by auto
  with w show ?thesis unfolding 2(3) step_interrupt [OF inv 2(1,2)] by simp
next
  case (3 v d)
  with w have "v \<noteq> w" by auto
  with w show ?thesis unfolding 3(3) step_kill [OF inv 3(1,2)] by simp
next
  case (4 v d fq)
  with w have "v \<noteq> w" by auto
  with w show ?thesis unfolding 4(3) step_sentinel [OF inv 4(1,2,4)] by simp
next
  case (5 v d f fq)
  with w have ne: "v \<noteq> w" by auto
  let ?a = "args\<lparr>files := [f], sources := []\<rparr>"
  show ?thesis
  proof (cases "mainf ?a")
    case (Inr r)
    from ne w show ?thesis
      unfolding 5(3) step_path_ok [where mainf = mainf and args = args, OF inv 5(1,2,4) Inr]
      by simp
  next
    case (Inl ex)
    show ?thesis
    proof (cases "ex = Empty \<or> ex = KeyboardInterrupt")
      case True
      from ne w show ?thesis
        unfolding 5(3) step_path_caught [where mainf = mainf and args = args, OF inv 5(1,2,4) Inl True]
        by simp
    next
      case False
      then have n2: "ex \<noteq> Empty" "ex \<noteq> KeyboardInterrupt" by simp_all
      from ne w show ?thesis
        unfolding 5(3) step_path_uncaught [where mainf = mainf and args = args, OF inv 5(1,2,4) Inl n2]
        by simp
    qed
  qed
qed

lemma run_events_exited_stays:
  "proto_inv n s \<Longrightarrow> w < n \<Longrightarrow> procs s ! w = Exited c \<Longrightarrow>
   procs (run_events mainf args s es) ! w = Exited c"
  unfolding run_events_def
  by (induction es arbitrary: s) (simp_all add: step_inv step_exited_stays)

text \<open>
  Claim C5. In parallel mode the work queue is created with capacity
  \<open>len(pyc_paths) + numproc\<close>; filling it never blocks, and when the workers start (before
  any event) it holds every path in order followed by one sentinel for every worker, which is
  exactly its capacity.
\<close>
theorem fqueue_filled_to_capacity:
  assumes "1 < np"
  shows "\<exists>fq. fill_fqueue paths np = Some fq \<and>
      maxsize fq = int (length paths) + np \<and>
      items fq = map Some paths @ replicate (nat np) None \<and>
      int (length (items fq)) = maxsize fq \<and>
      fqueue (run_events mainf args (start_state fq np) []) = fq \<and>
      procs (run_events mainf args (start_state fq np) []) = replicate (nat np) (Running 0)"
  using assms fill_fqueue_fits [of np paths]
  by (simp add: run_events_def start_state_def)

theorem fqueue_filled_to_capacity_witness:
  "fill_fqueue [''a.pyc'', ''b.pyc''] 2 =
     Some \<lparr>maxsize = 4, items = [Some ''a.pyc'', Some ''b.pyc'', None, None]\<rparr>"
proof -
  have "(1::int) < 2" by simp
  from fqueue_filled_to_capacity [OF this, of "[''a.pyc'', ''b.pyc'']" "\<lambda>a. Inr 0" "undefined :: unit main_args"]
  obtain fq where fq: "fill_fqueue [''a.pyc'', ''b.pyc''] 2 = Some fq" "maxsize fq = 4"
    "items fq = [Some ''a.pyc'', Some ''b.pyc'', None, None]"
    by (auto simp: numeral_2_eq_2)
  then have "fq = \<lparr>maxsize = 4, items = [Some ''a.pyc'', Some ''b.pyc'', None, None]\<rparr>"
    by (cases fq) simp
  with fq(1) show ?thesis by simp
qed

lemma published_died:
  assumes "w < length ps" and "ps ! w = Died"
  shows "size (published ps) < length ps"
proof -
  have "published (ps[w := Exited 0]) = published ps + {#0#}"
    using published_update [OF assms(1), of "Exited 0"] assms(2) by (simp add: put_by_def)
  then have "size (published (ps[w := Exited 0])) = size (published ps) + 1" by simp
  with published_size [of "ps[w := Exited 0]"] show ?thesis by simp
qed

lemma parallel_mode_published:
  assumes "1 < np" and "fill_fqueue paths np = Some fq"
    and "s = run_events mainf args (start_state fq np) es"
    and "list_all terminated (procs s)"
  shows "parallel_mode mainf args paths np es False
        = (Summary (sum_mset (published (procs s))), calls s)"
proof -
  have inv: "proto_inv (nat np) s"
    unfolding assms(3) using assms(1,2) by (rule reachable_inv)
  then have pub: "mset (items (rqueue s)) = published (procs s)" by (simp add: proto_inv_def)
  have "drain (rqueue s) 0 = sum_list (items (rqueue s))" by (simp add: drain_sum)
  also have "\<dots> = sum_mset (mset (items (rqueue s)))" by (simp add: sum_mset_sum_list)
  finally have d: "drain (rqueue s) 0 = sum_mset (published (procs s))" using pub by simp
  show ?thesis
    using assms(2,4) d unfolding parallel_mode_def assms(3) by (simp add: Let_def)
qed

subsection \<open>Runs without failure\<close>

lemma counters_add_cancel: "a + c = b + c \<Longrightarrow> a = (b :: counters)"
  by (cases a; cases b; cases c) (simp add: plus_counters_def)

lemma held_update:
  "i < length ps \<Longrightarrow>
   sum_list (map held (ps[i := q])) + held (ps ! i) = sum_list (map held ps) + held q"
  by (rule sum_list_map_update)

lemma set_update_Died:
  "Died \<notin> set ps \<Longrightarrow> q \<noteq> Died \<Longrightarrow> Died \<notin> set (ps[i := q])"
  using set_update_subset_insert [of ps i q] by auto

lemma good_invI:
  assumes "proto_inv n s" and "Died \<notin> set (procs s)"
    and "items (fqueue s) = map Some ps @ replicate (nrunning (procs s)) None"
    and "nrunning (procs s) < n \<longrightarrow> ps = []"
    and "sum_list (map held (procs s)) + sum_list (map h ps) = sum_list (map h paths)"
  shows "good_inv h paths n s"
  unfolding good_inv_def using assms by blast

lemma queue_head_sentinel:
  assumes "items q = map Some ps @ replicate k None" and "items q = None # xs"
  shows "ps = [] \<and> (\<exists>j. k = Suc j \<and> xs = replicate j None)"
proof -
  from assms have e: "ps = []" by (cases ps) simp_all
  with assms have "replicate k None = None # xs" by simp
  then have "\<exists>j. k = Suc j \<and> xs = replicate j None" by (cases k) simp_all
  with e show ?thesis by simp
qed

lemma queue_head_path:
  assumes "items q = map Some ps @ replicate k None" and "items q = Some f # xs"
  shows "\<exists>ps'. ps = f # ps' \<and> xs = map Some ps' @ replicate k None"
proof (cases ps)
  case Nil
  with assms have "replicate k None = Some f # xs" by simp
  then show ?thesis by (cases k) simp_all
next
  case (Cons a ps')
  with assms show ?thesis by simp
qed


lemma good_sentinel:
  assumes good: "good_inv h paths n s"
    and w: "w < n" "procs s ! w = Running c"
    and g: "get (fqueue s) = Some (None, fq)"
    and s': "procs s' = (procs s)[w := Exited c]" "fqueue s' = fq"
    and inv': "proto_inv n s'"
  shows "good_inv h paths n s'"
proof -
  from good have inv: "proto_inv n s" and nd: "Died \<notin> set (procs s)"
    by (simp_all add: good_inv_def)
  from good obtain ps where ps: "items (fqueue s) = map Some ps @ replicate (nrunning (procs s)) None"
    "sum_list (map held (procs s)) + sum_list (map h ps) = sum_list (map h paths)"
    unfolding good_inv_def by blast
  from inv w(1) have wl: "w < length (procs s)" by (simp add: proto_inv_def)
  have nr: "nrunning (procs s) = Suc (nrunning (procs s'))"
    using nrunning_update [OF wl, of "Exited c"] w(2) s'(1) by (simp add: running_def)
  from g obtain xs where xs: "items (fqueue s) = None # xs" "fq = (fqueue s)\<lparr>items := xs\<rparr>"
    by (auto simp: get_cases)
  from queue_head_sentinel [OF ps(1) xs(1)] nr
  have e: "ps = []" and x: "xs = replicate (nrunning (procs s')) None" by simp_all
  have "sum_list (map held (procs s')) + c = sum_list (map held (procs s)) + c"
    using held_update [OF wl, of "Exited c"] w(2) s'(1) by (simp add: held_def)
  then have hs: "sum_list (map held (procs s')) = sum_list (map held (procs s))"
    by (rule counters_add_cancel)
  show ?thesis
  proof (rule good_invI [where ps = "[]"])
    show "proto_inv n s'" by (rule inv')
    show "Died \<notin> set (procs s')" unfolding s'(1) using nd by (rule set_update_Died) simp
    show "items (fqueue s') = map Some [] @ replicate (nrunning (procs s')) None"
      using x xs(2) s'(2) by simp
    show "nrunning (procs s') < n \<longrightarrow> [] = ([] :: string list)" by simp
    show "sum_list (map held (procs s')) + sum_list (map h []) = sum_list (map h paths)"
      using hs ps(2) e by simp
  qed
qed

lemma good_path:
  assumes good: "good_inv h paths n s"
    and w: "w < n" "procs s ! w = Running c"
    and g: "get (fqueue s) = Some (Some f, fq)"
    and s': "procs s' = (procs s)[w := Running (c + h f)]" "fqueue s' = fq"
    and inv': "proto_inv n s'"
  shows "good_inv h paths n s'"
proof -
  from good have inv: "proto_inv n s" and nd: "Died \<notin> set (procs s)"
    by (simp_all add: good_inv_def)
  from good obtain ps where ps: "items (fqueue s) = map Some ps @ replicate (nrunning (procs s)) None"
    "nrunning (procs s) < n \<longrightarrow> ps = []"
    "sum_list (map held (procs s)) + sum_list (map h ps) = sum_list (map h paths)"
    unfolding good_inv_def by blast
  from inv w(1) have wl: "w < length (procs s)" by (simp add: proto_inv_def)
  have nr: "nrunning (procs s') = nrunning (procs s)"
    using nrunning_update [OF wl, of "Running (c + h f)"] w(2) s'(1) by (simp add: running_def)
  from g obtain xs where xs: "items (fqueue s) = Some f # xs" "fq = (fqueue s)\<lparr>items := xs\<rparr>"
    by (auto simp: get_cases)
  from queue_head_path [OF ps(1) xs(1)] obtain ps' where
    p': "ps = f # ps'" "xs = map Some ps' @ replicate (nrunning (procs s)) None" by blast
  from p'(1) ps(2) have full: "\<not> nrunning (procs s) < n" by simp
  have hs: "sum_list (map held (procs s')) + c = sum_list (map held (procs s)) + (c + h f)"
    using held_update [OF wl, of "Running (c + h f)"] w(2) s'(1) by (simp add: held_def)
  have "(sum_list (map held (procs s')) + sum_list (map h ps')) + c
      = (sum_list (map held (procs s')) + c) + sum_list (map h ps')"
    by (simp only: add.assoc add.commute [of _ c])
  also have "\<dots> = (sum_list (map held (procs s)) + (c + h f)) + sum_list (map h ps')"
    by (simp only: hs)
  also have "\<dots> = (sum_list (map held (procs s)) + (h f + sum_list (map h ps'))) + c"
    by (simp only: add.assoc add.commute [of c] add.left_commute [of c])
  also have "\<dots> = sum_list (map h paths) + c"
    using ps(3) p'(1) by simp
  finally have sm: "sum_list (map held (procs s')) + sum_list (map h ps') = sum_list (map h paths)"
    by (rule counters_add_cancel)
  show ?thesis
  proof (rule good_invI [where ps = ps'])
    show "proto_inv n s'" by (rule inv')
    show "Died \<notin> set (procs s')" unfolding s'(1) using nd by (rule set_update_Died) simp
    show "items (fqueue s') = map Some ps' @ replicate (nrunning (procs s')) None"
      using p'(2) xs(2) s'(2) nr by simp
    show "nrunning (procs s') < n \<longrightarrow> ps' = []" using full nr by simp
    show "sum_list (map held (procs s')) + sum_list (map h ps') = sum_list (map h paths)"
      by (rule sm)
  qed
qed

lemma good_step:
  assumes good: "good_inv h paths n s"
    and mainf: "\<And>f. mainf (args\<lparr>files := [f], sources := []\<rparr>) = Inr (h f)"
  shows "good_inv h paths n (step mainf args s (Run v))"
proof -
  from good have inv: "proto_inv n s" by (simp add: good_inv_def)
  have inv': "proto_inv n (step mainf args s (Run v))" using inv by (rule step_inv)
  show ?thesis
  proof (rule step_cases [OF inv, where mainf = mainf and args = args and e = "Run v"], goal_cases)
    case 1
    with good show ?case by simp
  next
    case (2 w c)
    then show ?case by simp
  next
    case (3 w c)
    then show ?case by simp
  next
    case (4 w c fq)
    then have wv: "v = w" by simp
    have st: "step mainf args s (Run w) =
      s\<lparr>fqueue := fq, rqueue := (rqueue s)\<lparr>items := items (rqueue s) @ [c]\<rparr>,
        procs := (procs s)[w := Exited c]\<rparr>"
      by (rule step_sentinel [OF inv 4(1,2,4)])
    show ?case
      unfolding wv st
      by (rule good_sentinel [OF good 4(1,2,4) _ _ inv' [unfolded wv st]]) simp_all
  next
    case (5 w c f fq)
    then have wv: "v = w" by simp
    have st: "step mainf args s (Run w) =
      s\<lparr>fqueue := fq, calls := calls s @ [args\<lparr>files := [f], sources := []\<rparr>],
        procs := (procs s)[w := Running (c + h f)]\<rparr>"
      by (rule step_path_ok [where mainf = mainf and args = args, OF inv 5(1,2,4) mainf])
    show ?case
      unfolding wv st
      by (rule good_path [OF good 5(1,2,4) _ _ inv' [unfolded wv st]]) simp_all
  qed
qed

lemma good_run:
  assumes mainf: "\<And>f. mainf (args\<lparr>files := [f], sources := []\<rparr>) = Inr (h f)"
  shows "good_inv h paths n s \<Longrightarrow> \<forall>e \<in> set es. \<exists>w. e = Run w \<Longrightarrow>
    good_inv h paths n (run_events mainf args s es)"
  unfolding run_events_def
proof (induction es arbitrary: s)
  case Nil
  then show ?case by simp
next
  case (Cons e es)
  from Cons.prems(2) obtain w where e: "e = Run w" by auto
  have "good_inv h paths n (step mainf args s e)"
    unfolding e using Cons.prems(1) mainf by (rule good_step)
  from Cons.IH [OF this] Cons.prems(2) show ?case by simp
qed

lemma nrunning_replicate: "nrunning (replicate k (Running c)) = k"
  by (simp add: nrunning_def running_def)

lemma held_simps:
  "held (Running c) = c" "held (Blocked c) = c" "held (Exited c) = c" "held Died = 0"
  by (simp_all add: held_def)

lemma held_replicate: "sum_list (map held (replicate k (Running 0))) = 0"
  by (induction k) (simp_all add: held_simps)

lemma good_start:
  assumes "0 \<le> np" and "fill_fqueue paths np = Some fq"
  shows "good_inv h paths (nat np) (start_state fq np)"
proof (rule good_invI [where ps = paths])
  show "proto_inv (nat np) (start_state fq np)" using assms by (rule start_state_inv)
  show "Died \<notin> set (procs (start_state fq np))" by (simp add: start_state_def)
  from assms fill_fqueue_fits [OF assms(1), of paths]
  have "items fq = map Some paths @ replicate (nat np) None" by auto
  then show "items (fqueue (start_state fq np))
      = map Some paths @ replicate (nrunning (procs (start_state fq np))) None"
    by (simp add: start_state_def nrunning_replicate)
  show "nrunning (procs (start_state fq np)) < nat np \<longrightarrow> paths = []"
    by (simp add: start_state_def nrunning_replicate)
  show "sum_list (map held (procs (start_state fq np))) + sum_list (map h paths)
      = sum_list (map h paths)"
    using held_replicate [of "nat np"] by (simp add: start_state_def)
qed

lemma terminated_not_running: "list_all terminated ps \<Longrightarrow> nrunning ps = 0"
  unfolding nrunning_def
  by (induction ps) (auto simp: terminated_def running_def split: worker.splits)

lemma published_held:
  "list_all terminated ps \<Longrightarrow> Died \<notin> set ps \<Longrightarrow>
   sum_mset (published ps) = sum_list (map held ps)"
proof (induction ps)
  case Nil
  then show ?case by (simp add: published_def)
next
  case (Cons p ps)
  then have "sum_mset (published ps) = sum_list (map held ps)" by simp
  moreover have "published (p # ps) = put_by p + published ps" by (simp add: published_def)
  moreover from Cons.prems obtain c where "p = Exited c"
    by (cases p) (simp_all add: terminated_def)
  ultimately show ?case by (simp add: put_by_def held_simps)
qed

lemma good_final:
  assumes "good_inv h paths n s" and "0 < n" and "list_all terminated (procs s)"
  shows "sum_mset (published (procs s)) = sum_list (map h paths)"
proof -
  from assms(1) obtain ps where ps: "nrunning (procs s) < n \<longrightarrow> ps = []"
    "sum_list (map held (procs s)) + sum_list (map h ps) = sum_list (map h paths)"
    and nd: "Died \<notin> set (procs s)"
    unfolding good_inv_def by blast
  from terminated_not_running [OF assms(3)] assms(2) ps(1) have "ps = []" by simp
  with ps(2) have "sum_list (map held (procs s)) = sum_list (map h paths)" by simp
  with published_held [OF assms(3) nd] show ?thesis by simp
qed

lemma parallel_mode_total:
  assumes np: "1 < np"
    and es: "\<forall>e \<in> set es. \<exists>w. e = Run w"
    and mainf: "\<And>f. mainf (args\<lparr>files := [f], sources := []\<rparr>) = Inr (h f)"
    and fin: "fst (parallel_mode mainf args paths np es False) \<noteq> Waiting"
  shows "fst (parallel_mode mainf args paths np es False) = Summary (sum_list (map h paths))"
proof -
  from np have n0: "0 \<le> np" by simp
  let ?fq = "\<lparr>maxsize = int (length paths) + np,
      items = map Some paths @ replicate (nat np) None\<rparr>"
  have fill: "fill_fqueue paths np = Some ?fq" using n0 by (rule fill_fqueue_fits)
  let ?s = "run_events mainf args (start_state ?fq np) es"
  from fin fill have tm: "list_all terminated (procs ?s)"
    by (simp add: parallel_mode_def Let_def split: if_splits)
  have "good_inv h paths (nat np) ?s"
    using mainf good_start [OF n0 fill] es by (rule good_run)
  from good_final [OF this _ tm] np
  have tot: "sum_mset (published (procs ?s)) = sum_list (map h paths)" by simp
  from parallel_mode_published [OF np fill refl tm] tot
  show ?thesis by simp
qed

lemma main_loop_total:
  assumes "\<And>f. invoke args f = Inr (h f)"
  shows "main_loop invoke args fs acc = Inr (acc + sum_list (map h fs))"
  by (induction fs arbitrary: acc) (simp_all add: assms add.assoc)

lemma main_total:
  "main (\<lambda>a f. Inr (g (in_base a) (out_base a) (out_file a) f)) args
     = Inr (sum_list (map (g (in_base args) (out_base args) (out_file args)) (files args)))"
  unfolding main_def
  using main_loop_total [of "\<lambda>a f. Inr (g (in_base a) (out_base a) (out_file a) f)" args
      "g (in_base args) (out_base args) (out_file args)" "files args" 0]
  by simp

lemma parallel_run_ending:
  "ending (parallel_run mainf ts args paths np es i) \<noteq> Hangs \<Longrightarrow>
   fst (parallel_mode mainf args paths np es i) \<noteq> Waiting"
  unfolding parallel_run_def
  by (cases "parallel_mode mainf args paths np es i")
    (auto split: dispatch.splits)

lemma parallel_run_stderr:
  "stderr (parallel_run mainf ts args paths np es i) = worker_stderr mainf args paths np es"
  unfolding parallel_run_def
  by (cases "parallel_mode mainf args paths np es i") (simp split: dispatch.splits)

lemma parallel_run_traceback_example:
  "stderr (main_bin (\<lambda>f. False) (\<lambda>f. [])
      (\<lambda>a. if files a = [''b.pyc''] then Inl VerifyCmpError else Inr (Counters 1 1 0 0))
      \<lparr>recurse_dirs = False, pyc_paths = [''lib/a.pyc'', ''lib/b.pyc''], source_paths = [],
       outfile = None, numproc = 2, timestamp = False, kwargs = (), options = ()\<rparr>
      [Run 0, Run 1, Run 0] False) = [Traceback 1 VerifyCmpError]"
  by code_simp

lemma parallel_run_aggregate:
  "fst (parallel_mode mainf args paths np es i) = Summary c \<Longrightarrow>
   aggregate (parallel_run mainf ts args paths np es i) = Some c"
  unfolding parallel_run_def
  by (cases "parallel_mode mainf args paths np es i") simp


subsection \<open>Every worker ends\<close>

lemma npaths_get:
  "get q = Some (x, q') \<Longrightarrow> npaths q = npaths q' + (if x = None then 0 else 1)"
  by (auto simp: get_cases npaths_def)

lemma step_effect:
  assumes inv: "proto_inv n s"
  shows "npaths (fqueue (step mainf args s e)) \<le> npaths (fqueue s) \<and>
    (\<forall>w < n. running (procs (step mainf args s e) ! w) \<longrightarrow> running (procs s ! w)) \<and>
    (\<forall>w < n. e = Run w \<and> running (procs (step mainf args s e) ! w) \<longrightarrow>
       npaths (fqueue (step mainf args s e)) < npaths (fqueue s))"
proof -
  from inv have len: "length (procs s) = n" by (simp add: proto_inv_def)
  have upd: "\<forall>w < n. running ((procs s)[v := p] ! w) \<longrightarrow> running (procs s ! w)"
    if "running p \<longrightarrow> running (procs s ! v)" for v p
  proof (intro allI impI)
    fix w assume w: "w < n" "running ((procs s)[v := p] ! w)"
    show "running (procs s ! w)"
    proof (cases "w = v")
      case True
      with w len have "running p" by simp
      with that True show ?thesis by simp
    next
      case False
      with w show ?thesis by simp
    qed
  qed
  show ?thesis
  proof (rule step_cases [OF inv, where mainf = mainf and args = args and e = "e"], goal_cases)
    case (1 v)
    then show ?case by auto
  next
    case (2 v c)
    show ?case
      unfolding 2(3) step_interrupt [OF inv 2(1,2)]
      using upd [of "Exited c" v] by (simp add: running_def)
  next
    case (3 v c)
    show ?case
      unfolding 3(3) step_kill [OF inv 3(1,2)]
      using upd [of Died v] by (simp add: running_def)
  next
    case (4 v c fq)
    from 4(1) len have "(procs s)[v := Exited c] ! v = Exited c" by simp
    then show ?case
      unfolding 4(3) step_sentinel [OF inv 4(1,2,4)]
      using upd [of "Exited c" v] npaths_get [OF 4(4)] by (simp add: running_def)
  next
    case (5 v c f fq)
    let ?a = "args\<lparr>files := [f], sources := []\<rparr>"
    show ?case
    proof (cases "mainf ?a")
      case (Inr r)
      show ?thesis
        unfolding 5(3) step_path_ok [where mainf = mainf and args = args, OF inv 5(1,2,4) Inr]
        using upd [of "Running (c + r)" v] npaths_get [OF 5(4)] 5(2) by (simp add: running_def)
    next
      case (Inl ex)
      show ?thesis
      proof (cases "ex = Empty \<or> ex = KeyboardInterrupt")
        case True
        from 5(1) len have "(procs s)[v := Exited c] ! v = Exited c" by simp
        then show ?thesis
          unfolding 5(3) step_path_caught [where mainf = mainf and args = args, OF inv 5(1,2,4) Inl True]
          using upd [of "Exited c" v] npaths_get [OF 5(4)] by (simp add: running_def)
      next
        case False
        then have ne: "ex \<noteq> Empty" "ex \<noteq> KeyboardInterrupt" by simp_all
        from 5(1) len have "(procs s)[v := Died] ! v = Died" by simp
        then show ?thesis
          unfolding 5(3) step_path_uncaught [where mainf = mainf and args = args, OF inv 5(1,2,4) Inl ne]
          using upd [of Died v] npaths_get [OF 5(4)] by (simp add: running_def)
      qed
    qed
  qed
qed


lemma run_events_snoc:
  "run_events mainf args s (es @ [e]) = step mainf args (run_events mainf args s es) e"
  by (simp add: run_events_def)

lemma turns_bound:
  assumes inv0: "proto_inv n s0"
  shows "\<forall>w < n. running (procs (run_events mainf args s0 es) ! w) \<longrightarrow>
    count_list es (Run w) + npaths (fqueue (run_events mainf args s0 es)) \<le> npaths (fqueue s0)"
proof (induction es rule: rev_induct)
  case Nil
  then show ?case by (simp add: run_events_def)
next
  case (snoc e es)
  let ?s = "run_events mainf args s0 es"
  let ?s' = "step mainf args ?s e"
  have inv: "proto_inv n ?s" using inv0 by (rule run_events_inv)
  note eff = step_effect [OF inv, of mainf args e]
  show ?case
  proof (intro allI impI)
    fix w assume w: "w < n" and r: "running (procs (run_events mainf args s0 (es @ [e])) ! w)"
    from r have r': "running (procs ?s' ! w)" by (simp add: run_events_snoc)
    have rs: "running (procs ?s ! w)"
      by (rule eff [THEN conjunct2, THEN conjunct1, rule_format, OF w r'])
    have ih: "count_list es (Run w) + npaths (fqueue ?s) \<le> npaths (fqueue s0)"
      by (rule snoc.IH [rule_format, OF w rs])
    show "count_list (es @ [e]) (Run w) + npaths (fqueue (run_events mainf args s0 (es @ [e])))
        \<le> npaths (fqueue s0)"
    proof (cases "e = Run w")
      case True
      with r' have "e = Run w \<and> running (procs ?s' ! w)" by simp
      then have "npaths (fqueue ?s') < npaths (fqueue ?s)"
        by (rule eff [THEN conjunct2, THEN conjunct2, rule_format, OF w])
      with ih True show ?thesis by (simp add: run_events_snoc)
    next
      case False
      have "npaths (fqueue ?s') \<le> npaths (fqueue ?s)" by (rule eff [THEN conjunct1])
      with ih False show ?thesis by (simp add: run_events_snoc)
    qed
  qed
qed

lemma enough_turns_terminate:
  fixes args :: "'o main_args"
  assumes np: "1 < np" and fill: "fill_fqueue paths np = Some fq"
    and turns: "\<forall>w < nat np. length paths < count_list es (Run w)"
  shows "list_all terminated (procs (run_events mainf args (start_state fq np) es))"
proof -
  let ?init = "start_state fq np :: 'o pstate"
  let ?s = "run_events mainf args ?init es"
  from np have n0: "0 \<le> np" by simp
  have inv0: "proto_inv (nat np) ?init" using n0 fill by (rule start_state_inv)
  have inv: "proto_inv (nat np) ?s" using np fill by (rule reachable_inv)
  from fill fill_fqueue_fits [OF n0, of paths]
  have "items fq = map Some paths @ replicate (nat np) None" by auto
  then have np0: "npaths (fqueue ?init) = length paths"
    by (simp add: npaths_def start_state_def)
  have nr: "\<not> running (procs ?s ! w)" if "w < nat np" for w
  proof
    assume r: "running (procs ?s ! w)"
    have "count_list es (Run w) + npaths (fqueue ?s) \<le> npaths (fqueue ?init)"
      by (rule turns_bound [OF inv0, of mainf args es, rule_format, OF that r])
    with np0 have "count_list es (Run w) \<le> length paths" by simp
    moreover have "length paths < count_list es (Run w)"
      by (rule turns [rule_format, OF that])
    ultimately show False by simp
  qed
  from inv have len: "length (procs ?s) = nat np"
    and nb: "\<forall>c. Blocked c \<notin> set (procs ?s)" by (simp_all add: proto_inv_def)
  have "terminated (procs ?s ! w)" if "w < length (procs ?s)" for w
  proof -
    from that have "procs ?s ! w \<in> set (procs ?s)" by simp
    with nb have "\<forall>c. procs ?s ! w \<noteq> Blocked c" by auto
    with nr [of w] that len show ?thesis
      by (cases "procs ?s ! w") (simp_all add: terminated_def running_def)
  qed
  then show ?thesis by (simp add: list_all_length)
qed

subsection \<open>The claims about the protocol\<close>

text \<open>
  Claim C7. Take any reachable state in which worker \<open>w\<close> is in its loop with counters
  \<open>c\<close>. A keyboard interrupt makes it put exactly \<open>c\<close> on the result queue and return,
  leaving the work queue as it is; so does \<^verbatim>\<open>Empty\<close> or \<^verbatim>\<open>KeyboardInterrupt\<close> raised by
  \<^verbatim>\<open>main\<close> on the path just taken. The worker is not marked as died, and from then on it
  stays returned with \<open>c\<close>, takes nothing more from the work queue, and the result queue
  holds one tuple for every returned worker.
\<close>
theorem worker_cancel_publishes_once:
  fixes args :: "'o main_args"
  assumes "1 < np" and "fill_fqueue paths np = Some fq"
    and "s = run_events mainf args (start_state fq np) es"
    and "w < nat np" and "procs s ! w = Running c"
  shows "step mainf args s (Interrupt w) =
      s\<lparr>rqueue := (rqueue s)\<lparr>items := items (rqueue s) @ [c]\<rparr>,
        procs := (procs s)[w := Exited c]\<rparr> \<and>
    (\<forall>f fq' e. get (fqueue s) = Some (Some f, fq') \<and>
        mainf (args\<lparr>files := [f], sources := []\<rparr>) = Inl e \<and>
        (e = Empty \<or> e = KeyboardInterrupt) \<longrightarrow>
      step mainf args s (Run w) =
        s\<lparr>fqueue := fq', calls := calls s @ [args\<lparr>files := [f], sources := []\<rparr>],
          rqueue := (rqueue s)\<lparr>items := items (rqueue s) @ [c]\<rparr>,
          procs := (procs s)[w := Exited c]\<rparr>) \<and>
    (\<forall>e es'. procs (step mainf args s e) ! w = Exited c \<longrightarrow>
      procs (run_events mainf args (step mainf args s e) es') ! w = Exited c \<and>
      step mainf args (run_events mainf args (step mainf args s e) es') (Run w)
        = run_events mainf args (step mainf args s e) es' \<and>
      mset (items (rqueue (run_events mainf args (step mainf args s e) es')))
        = published (procs (run_events mainf args (step mainf args s e) es')))"
proof -
  have inv: "proto_inv (nat np) s"
    unfolding assms(3) using assms(1,2) by (rule reachable_inv)
  have a: "step mainf args s (Interrupt w) =
      s\<lparr>rqueue := (rqueue s)\<lparr>items := items (rqueue s) @ [c]\<rparr>,
        procs := (procs s)[w := Exited c]\<rparr>"
    using inv assms(4,5) by (rule step_interrupt)
  have b: "step mainf args s (Run w) =
        s\<lparr>fqueue := fq', calls := calls s @ [args\<lparr>files := [f], sources := []\<rparr>],
          rqueue := (rqueue s)\<lparr>items := items (rqueue s) @ [c]\<rparr>,
          procs := (procs s)[w := Exited c]\<rparr>"
    if "get (fqueue s) = Some (Some f, fq')"
      and "mainf (args\<lparr>files := [f], sources := []\<rparr>) = Inl e"
      and "e = Empty \<or> e = KeyboardInterrupt" for f fq' e
    using step_path_caught [where mainf = mainf and args = args, OF inv assms(4,5) that] .
  have c: "procs (run_events mainf args (step mainf args s e) es') ! w = Exited c \<and>
      step mainf args (run_events mainf args (step mainf args s e) es') (Run w)
        = run_events mainf args (step mainf args s e) es' \<and>
      mset (items (rqueue (run_events mainf args (step mainf args s e) es')))
        = published (procs (run_events mainf args (step mainf args s e) es'))"
    if "procs (step mainf args s e) ! w = Exited c" for e es'
  proof -
    let ?t = "run_events mainf args (step mainf args s e) es'"
    have i1: "proto_inv (nat np) (step mainf args s e)" using inv by (rule step_inv)
    then have i2: "proto_inv (nat np) ?t" by (rule run_events_inv)
    have ex: "procs ?t ! w = Exited c" by (rule run_events_exited_stays [OF i1 assms(4) that])
    then have "w < nat np \<longrightarrow> \<not> running (procs ?t ! w)" by (simp add: running_def)
    from step_idle [OF i2 this, of "Run w" mainf args]
    have "step mainf args ?t (Run w) = ?t" by simp
    with ex i2 show ?thesis by (simp add: proto_inv_def)
  qed
  from a b c show ?thesis by blast
qed

theorem worker_cancel_publishes_once_witness:
  "items (rqueue (step (\<lambda>a. Inr (Counters 1 1 0 0))
      \<lparr>in_base = ''lib/'', out_base = None, files = [], sources = [], out_file = None, opts = ()\<rparr>
      (run_events (\<lambda>a. Inr (Counters 1 1 0 0))
        \<lparr>in_base = ''lib/'', out_base = None, files = [], sources = [], out_file = None, opts = ()\<rparr>
        (start_state \<lparr>maxsize = 4, items = [Some ''a.pyc'', Some ''b.pyc'', None, None]\<rparr> 2)
        [Run 0])
      (Interrupt 0))) = [Counters 1 1 0 0] \<and>
   procs (step (\<lambda>a. Inr (Counters 1 1 0 0))
      \<lparr>in_base = ''lib/'', out_base = None, files = [], sources = [], out_file = None, opts = ()\<rparr>
      (run_events (\<lambda>a. Inr (Counters 1 1 0 0))
        \<lparr>in_base = ''lib/'', out_base = None, files = [], sources = [], out_file = None, opts = ()\<rparr>
        (start_state \<lparr>maxsize = 4, items = [Some ''a.pyc'', Some ''b.pyc'', None, None]\<rparr> 2)
        [Run 0])
      (Interrupt 0)) ! 0 = Exited (Counters 1 1 0 0)"
proof -
  let ?mainf = "\<lambda>a :: unit main_args. (Inr (Counters 1 1 0 0) :: exn + counters)"
  let ?args = "\<lparr>in_base = ''lib/'', out_base = None, files = [], sources = [],
      out_file = None, opts = ()\<rparr>"
  let ?fq = "\<lparr>maxsize = 4, items = [Some ''a.pyc'', Some ''b.pyc'', None, None]\<rparr>"
  let ?s = "run_events ?mainf ?args (start_state ?fq 2) [Run 0]"
  have h1: "(1::int) < 2" by simp
  have h2: "fill_fqueue [''a.pyc'', ''b.pyc''] 2 = Some ?fq" by code_simp
  have h4: "(0::nat) < nat 2" by simp
  have h5: "procs ?s ! 0 = Running (Counters 1 1 0 0)" by code_simp
  have q: "items (rqueue ?s) = []" by code_simp
  from worker_cancel_publishes_once [OF h1 h2 refl h4 h5]
  have "step ?mainf ?args ?s (Interrupt 0) =
      ?s\<lparr>rqueue := (rqueue ?s)\<lparr>items := items (rqueue ?s) @ [Counters 1 1 0 0]\<rparr>,
        procs := (procs ?s)[0 := Exited (Counters 1 1 0 0)]\<rparr>" by blast
  moreover have "length (procs ?s) = 2" by code_simp
  ultimately show ?thesis using q by simp
qed

text \<open>
  Claim C4. Whatever happens to the workers (turns, interrupts, kills, exceptions): once all
  of them have ended, the drain loop ends and the summary is the sum of exactly the tuples
  that were put on the result queue, which are fewer than \<open>numproc\<close> when some worker died.
  And all workers have ended as soon as every worker has had more turns than there are paths.
\<close>
theorem drain_tolerates_missing_publish:
  fixes args :: "'o main_args"
  assumes "1 < np" and "fill_fqueue paths np = Some fq"
    and "s = run_events mainf args (start_state fq np) es"
  shows "(list_all terminated (procs s) \<longrightarrow>
      parallel_mode mainf args paths np es False
        = (Summary (sum_mset (published (procs s))), calls s) \<and>
      mset (items (rqueue s)) = published (procs s) \<and>
      (\<forall>w < nat np. procs s ! w = Died \<longrightarrow> length (items (rqueue s)) < nat np)) \<and>
    ((\<forall>w < nat np. length paths < count_list es (Run w)) \<longrightarrow> list_all terminated (procs s))"
proof -
  have inv: "proto_inv (nat np) s"
    unfolding assms(3) using assms(1,2) by (rule reachable_inv)
  then have pub: "mset (items (rqueue s)) = published (procs s)"
    and len: "length (procs s) = nat np" by (simp_all add: proto_inv_def)
  have pm: "parallel_mode mainf args paths np es False
        = (Summary (sum_mset (published (procs s))), calls s)"
    if "list_all terminated (procs s)"
    using assms that by (rule parallel_mode_published)
  have d: "length (items (rqueue s)) < nat np" if "w < nat np" "procs s ! w = Died" for w
  proof -
    have "length (items (rqueue s)) = size (mset (items (rqueue s)))" by simp
    with pub published_died [of w "procs s"] that len show ?thesis by simp
  qed
  have live: "list_all terminated (procs s)"
    if "\<forall>w < nat np. length paths < count_list es (Run w)"
    unfolding assms(3) using assms(1,2) that by (rule enough_turns_terminate)
  from pm pub d live show ?thesis by blast
qed

theorem drain_tolerates_missing_publish_witness:
  "parallel_mode (\<lambda>a. Inr (Counters 1 1 0 0))
      \<lparr>in_base = ''lib/'', out_base = None, files = [], sources = [], out_file = None, opts = ()\<rparr>
      [''a.pyc'', ''b.pyc'', ''c.pyc''] 2 [Run 0, Run 1, Kill 1, Run 0, Run 0] False
    = (Summary (Counters 2 2 0 0),
       [\<lparr>in_base = ''lib/'', out_base = None, files = [''a.pyc''], sources = [], out_file = None, opts = ()\<rparr>,
        \<lparr>in_base = ''lib/'', out_base = None, files = [''b.pyc''], sources = [], out_file = None, opts = ()\<rparr>,
        \<lparr>in_base = ''lib/'', out_base = None, files = [''c.pyc''], sources = [], out_file = None, opts = ()\<rparr>])
   \<and> procs (run_events (\<lambda>a. Inr (Counters 1 1 0 0))
      \<lparr>in_base = ''lib/'', out_base = None, files = [], sources = [], out_file = None, opts = ()\<rparr>
      (start_state \<lparr>maxsize = 5, items = [Some ''a.pyc'', Some ''b.pyc'', Some ''c.pyc'', None, None]\<rparr> 2)
      [Run 0, Run 1, Kill 1, Run 0, Run 0]) = [Exited (Counters 2 2 0 0), Died]"
proof -
  let ?mainf = "\<lambda>a :: unit main_args. (Inr (Counters 1 1 0 0) :: exn + counters)"
  let ?args = "\<lparr>in_base = ''lib/'', out_base = None, files = [], sources = [],
      out_file = None, opts = ()\<rparr>"
  let ?fq = "\<lparr>maxsize = 5, items = [Some ''a.pyc'', Some ''b.pyc'', Some ''c.pyc'', None, None]\<rparr>"
  let ?es = "[Run 0, Run 1, Kill 1, Run 0, Run 0]"
  let ?s = "run_events ?mainf ?args (start_state ?fq 2) ?es"
  have h1: "(1::int) < 2" by simp
  have h2: "fill_fqueue [''a.pyc'', ''b.pyc'', ''c.pyc''] 2 = Some ?fq" by code_simp
  have p: "procs ?s = [Exited (Counters 2 2 0 0), Died]" by code_simp
  have c: "calls ?s =
       [\<lparr>in_base = ''lib/'', out_base = None, files = [''a.pyc''], sources = [], out_file = None, opts = ()\<rparr>,
        \<lparr>in_base = ''lib/'', out_base = None, files = [''b.pyc''], sources = [], out_file = None, opts = ()\<rparr>,
        \<lparr>in_base = ''lib/'', out_base = None, files = [''c.pyc''], sources = [], out_file = None, opts = ()\<rparr>]"
    by code_simp
  have t: "list_all terminated (procs ?s)" unfolding p by (simp add: terminated_def)
  have v: "sum_mset (published (procs ?s)) = Counters 2 2 0 0"
    unfolding p by (simp add: published_def put_by_def)
  from drain_tolerates_missing_publish [OF h1 h2 refl, where mainf = ?mainf and args = ?args and es = ?es] t
  have "parallel_mode ?mainf ?args [''a.pyc'', ''b.pyc'', ''c.pyc''] 2 ?es False
      = (Summary (sum_mset (published (procs ?s))), calls ?s)" by blast
  with v c p show ?thesis by simp
qed

text \<open>
  Claim C3, as stated, fails in three ways, each on two paths and with two workers.
  A transformation that raises \<^verbatim>\<open>VerifyCmpError\<close> on one file ends the serial run without
  aggregate (lines 234 and 235), while in parallel mode only the worker that met it dies and
  the summary holds the counters of the other file. A transformation that reads the option
  set, or the list of source files, sees different values in the two modes: the serial call
  passes the keyword arguments and \<^verbatim>\<open>source_paths\<close> (lines 211 to 224), the workers pass
  \<^verbatim>\<open>**options\<close> and the empty list (line 266).
\<close>

theorem serial_parallel_same_aggregate_counterexample:
  "aggregate (main_bin (\<lambda>f. False) (\<lambda>f. [])
      (main (\<lambda>a f. if f = ''b.pyc'' then Inl VerifyCmpError else Inr (Counters 1 1 0 0)))
      \<lparr>recurse_dirs = False, pyc_paths = [''lib/a.pyc'', ''lib/b.pyc''], source_paths = [],
       outfile = None, numproc = 1, timestamp = False, kwargs = (), options = ()\<rparr>
      [] False) = None \<and>
   aggregate (main_bin (\<lambda>f. False) (\<lambda>f. [])
      (main (\<lambda>a f. if f = ''b.pyc'' then Inl VerifyCmpError else Inr (Counters 1 1 0 0)))
      \<lparr>recurse_dirs = False, pyc_paths = [''lib/a.pyc'', ''lib/b.pyc''], source_paths = [],
       outfile = None, numproc = 2, timestamp = False, kwargs = (), options = ()\<rparr>
      [Run 0, Run 1, Run 0] False) = Some (Counters 1 1 0 0) \<and>
   aggregate (main_bin (\<lambda>f. False) (\<lambda>f. [])
      (main (\<lambda>a f. Inr (if opts a then Counters 1 0 0 1 else Counters 1 1 0 0)))
      \<lparr>recurse_dirs = False, pyc_paths = [''lib/a.pyc'', ''lib/b.pyc''], source_paths = [],
       outfile = None, numproc = 1, timestamp = False, kwargs = True, options = False\<rparr>
      [] False) = Some (Counters 2 0 0 2) \<and>
   aggregate (main_bin (\<lambda>f. False) (\<lambda>f. [])
      (main (\<lambda>a f. Inr (if opts a then Counters 1 0 0 1 else Counters 1 1 0 0)))
      \<lparr>recurse_dirs = False, pyc_paths = [''lib/a.pyc'', ''lib/b.pyc''], source_paths = [],
       outfile = None, numproc = 2, timestamp = False, kwargs = True, options = False\<rparr>
      [Run 0, Run 1, Run 0, Run 1] False) = Some (Counters 2 2 0 0) \<and>
   aggregate (main_bin (\<lambda>f. False) (\<lambda>f. [])
      (main (\<lambda>a f. Inr (if sources a = [] then Counters 1 1 0 0 else Counters 1 0 1 0)))
      \<lparr>recurse_dirs = False, pyc_paths = [''lib/a.pyc'', ''lib/b.pyc''],
       source_paths = [''c.py''], outfile = None, numproc = 1, timestamp = False,
       kwargs = (), options = ()\<rparr>
      [] False) = Some (Counters 2 0 2 0) \<and>
   aggregate (main_bin (\<lambda>f. False) (\<lambda>f. [])
      (main (\<lambda>a f. Inr (if sources a = [] then Counters 1 1 0 0 else Counters 1 0 1 0)))
      \<lparr>recurse_dirs = False, pyc_paths = [''lib/a.pyc'', ''lib/b.pyc''],
       source_paths = [''c.py''], outfile = None, numproc = 2, timestamp = False,
       kwargs = (), options = ()\<rparr>
      [Run 0, Run 1, Run 0, Run 1] False) = Some (Counters 2 2 0 0)"
  by code_simp

text \<open>
  Claim C3, amended. Let the per-file transformation never raise, and let its counters depend
  only on the file and on the source base, the destination base and the output file, which
  both modes pass alike. Then for every schedule of worker turns, without interrupt or kill,
  after which the dispatcher is not left waiting, parallel mode reports the aggregate that
  serial mode gets from the one call of \<^verbatim>\<open>main\<close>.
\<close>

theorem serial_parallel_same_aggregate:
  fixes g :: "string \<Rightarrow> string option \<Rightarrow> string option \<Rightarrow> string \<Rightarrow> counters"
  assumes tr: "\<forall>a f. invoke a f = Inr (g (in_base a) (out_base a) (out_file a) f)"
    and serial: "numproc cfg \<le> 1" and par: "1 < np"
    and es: "\<forall>e \<in> set es. \<exists>w. e = Run w"
    and fin: "ending (main_bin isdir walk (main invoke) (cfg\<lparr>numproc := np\<rparr>) es False)
      \<noteq> Hangs"
  shows "aggregate (main_bin isdir walk (main invoke) cfg es' i')
      = aggregate (main_bin isdir walk (main invoke) (cfg\<lparr>numproc := np\<rparr>) es False) \<and>
    (main_calls (main_bin isdir walk (main invoke) cfg es' i') \<noteq> [] \<longrightarrow>
      aggregate (main_bin isdir walk (main invoke) cfg es' i') \<noteq> None)"
proof -
  have iv: "invoke = (\<lambda>a f. Inr (g (in_base a) (out_base a) (out_file a) f))"
    using tr by (intro ext) simp
  define M where "M = main invoke"
  have M_eq: "M = main (\<lambda>a f. Inr (g (in_base a) (out_base a) (out_file a) f))"
    unfolding M_def iv by (rule refl)
  note fin' = fin [folded M_def]
  let ?given = "if recurse_dirs cfg then expand_dirs isdir walk (pyc_paths cfg) else pyc_paths cfg"
  let ?cfg = "cfg\<lparr>numproc := np\<rparr>"
  have sel: "recurse_dirs ?cfg = recurse_dirs cfg" "pyc_paths ?cfg = pyc_paths cfg"
    "outfile ?cfg = outfile cfg" "timestamp ?cfg = timestamp cfg" "numproc ?cfg = np"
    "source_paths ?cfg = source_paths cfg" "kwargs ?cfg = kwargs cfg"
    "options ?cfg = options cfg" by simp_all
  have "aggregate (main_bin isdir walk M cfg es' i')
      = aggregate (main_bin isdir walk M ?cfg es False) \<and>
    (main_calls (main_bin isdir walk M cfg es' i') \<noteq> [] \<longrightarrow>
      aggregate (main_bin isdir walk M cfg es' i') \<noteq> None)"
  proof (cases "path_reducer ?given")
    case (Inl e)
    show ?thesis unfolding main_bin_def sel Let_def Inl by simp
  next
    case (Inr bp)
    obtain b ps where bp: "bp = (b, ps)" by (cases bp)
    show ?thesis
    proof (cases "ps = []")
      case True
      show ?thesis unfolding main_bin_def sel Let_def Inr bp True by (simp add: usage_def)
    next
      case False
      obtain ob outf where r: "resolve_out isdir (outfile cfg) (length ps) = (ob, outf)"
        by (cases "resolve_out isdir (outfile cfg) (length ps)")
      let ?ts = "if timestamp cfg then [Time] else []"
      let ?sargs = "\<lparr>in_base = b, out_base = ob, files = ps, sources = source_paths cfg,
          out_file = outf, opts = kwargs cfg\<rparr>"
      let ?pargs = "\<lparr>in_base = b, out_base = ob, files = [], sources = [],
          out_file = outf, opts = options cfg\<rparr>"
      let ?h = "g b ob outf"
      have ms: "main_bin isdir walk M cfg es' i' = serial_mode M ?ts ?sargs"
        unfolding main_bin_def Let_def Inr bp using False r serial by simp
      have np1: "\<not> np \<le> 1" using par by simp
      have mp: "main_bin isdir walk M ?cfg es False
          = parallel_run M ?ts ?pargs ps np es False"
        unfolding main_bin_def sel Let_def Inr bp using False r np1 by simp
      have "M ?sargs = Inr (sum_list (map ?h ps))"
        unfolding M_eq main_total by simp
      then have sa: "aggregate (serial_mode M ?ts ?sargs) = Some (sum_list (map ?h ps))"
        and sc: "main_calls (serial_mode M ?ts ?sargs) = [?sargs]"
        by (simp_all add: serial_mode_def)
      have call: "M (?pargs\<lparr>files := [f], sources := []\<rparr>) = Inr (?h f)" for f
        unfolding M_eq main_total by simp
      from fin' mp have "fst (parallel_mode M ?pargs ps np es False) \<noteq> Waiting"
        by (simp add: parallel_run_ending)
      from parallel_mode_total [where mainf = M and args = ?pargs and h = ?h, OF par es call this]
      have "aggregate (parallel_run M ?ts ?pargs ps np es False) = Some (sum_list (map ?h ps))"
        by (rule parallel_run_aggregate)
      with ms mp sa sc show ?thesis by simp
    qed
  qed
  then show ?thesis unfolding M_def .
qed

theorem serial_parallel_same_aggregate_witness:
  "aggregate (main_bin (\<lambda>f. False) (\<lambda>f. [])
      (main (\<lambda>a f. Inr (if f = ''b.pyc'' then Counters 1 0 1 0 else Counters 1 1 0 0)))
      \<lparr>recurse_dirs = False, pyc_paths = [''lib/a.pyc'', ''lib/b.pyc'', ''lib/c.pyc''],
       source_paths = [], outfile = None, numproc = 1, timestamp = False, kwargs = (),
       options = ()\<rparr> [] False)
   = aggregate (main_bin (\<lambda>f. False) (\<lambda>f. [])
      (main (\<lambda>a f. Inr (if f = ''b.pyc'' then Counters 1 0 1 0 else Counters 1 1 0 0)))
      \<lparr>recurse_dirs = False, pyc_paths = [''lib/a.pyc'', ''lib/b.pyc'', ''lib/c.pyc''],
       source_paths = [], outfile = None, numproc = 4, timestamp = False, kwargs = (),
       options = ()\<rparr> [Run 0, Run 1, Run 1, Run 3, Run 2, Run 1, Run 0] False) \<and>
   aggregate (main_bin (\<lambda>f. False) (\<lambda>f. [])
      (main (\<lambda>a f. Inr (if f = ''b.pyc'' then Counters 1 0 1 0 else Counters 1 1 0 0)))
      \<lparr>recurse_dirs = False, pyc_paths = [''lib/a.pyc'', ''lib/b.pyc'', ''lib/c.pyc''],
       source_paths = [], outfile = None, numproc = 1, timestamp = False, kwargs = (),
       options = ()\<rparr> [] False) = Some (Counters 3 2 1 0)"
proof -
  let ?g = "\<lambda>(b :: string) (ob :: string option) (outf :: string option) f.
      if f = ''b.pyc'' then Counters 1 0 1 0 else Counters 1 1 0 0"
  let ?M = "main (\<lambda>a f. Inr (if f = ''b.pyc'' then Counters 1 0 1 0 else Counters 1 1 0 0))
      :: unit main_args \<Rightarrow> exn + counters"
  let ?cfg = "\<lparr>recurse_dirs = False, pyc_paths = [''lib/a.pyc'', ''lib/b.pyc'', ''lib/c.pyc''],
       source_paths = [], outfile = None, numproc = 1, timestamp = False, kwargs = (),
       options = ()\<rparr>"
  let ?es = "[Run 0, Run 1, Run 1, Run 3, Run 2, Run 1, Run 0]"
  have h1: "numproc ?cfg \<le> 1" by simp
  have h2: "(1::int) < 4" by simp
  have h3: "\<forall>e \<in> set ?es. \<exists>w. e = Run w" by simp
  have h4: "ending (main_bin (\<lambda>f. False) (\<lambda>f. []) ?M (?cfg\<lparr>numproc := 4\<rparr>) ?es False) \<noteq> Hangs"
    by code_simp
  have v: "aggregate (main_bin (\<lambda>f. False) (\<lambda>f. []) ?M ?cfg [] False) = Some (Counters 3 2 1 0)"
    by code_simp
  have h0: "\<forall>a f. (\<lambda>(a :: unit main_args) f.
        (Inr (if f = ''b.pyc'' then Counters 1 0 1 0 else Counters 1 1 0 0) :: exn + counters)) a f
      = Inr (?g (in_base a) (out_base a) (out_file a) f)" by simp
  from serial_parallel_same_aggregate [where g = ?g and cfg = ?cfg and np = 4 and es = ?es
      and isdir = "\<lambda>f. False" and walk = "\<lambda>f. []" and es' = "[]" and i' = False,
      OF h0 h1 h2 h3 h4] v
  show ?thesis by simp
qed

end
